theory Spec2Isabelle
  imports Main
begin

section \<open>JavaScript values and strings\<close>

text \<open>
  Strings are lists of 8-bit code units: message bodies are read as Latin-1 text, one
  \<^typ>\<open>char\<close> per UTF-16 code unit below 256, so \<^const>\<open>length\<close> is the \<open>length\<close> of the
  JavaScript string. Times are the integers \<open>Date.now()\<close> returns, passed into each
  operation by its caller.
\<close>

datatype 'a nullable = Null | Undefined | Defined 'a

text \<open>
  \<open>Array.prototype.slice(start, end)\<close>: a negative index counts from the end, every
  index is clamped to the array, and \<open>-0\<close> is \<open>0\<close>.
\<close>

definition relativeIndex :: "int \<Rightarrow> int \<Rightarrow> int" where
  "relativeIndex len i = (if i < 0 then max (len + i) 0 else min i len)"

definition jsSlice :: "'a list \<Rightarrow> int \<Rightarrow> int option \<Rightarrow> 'a list" where
  "jsSlice xs start end =
     (let len = int (length xs);
          k = relativeIndex len start;
          e = (case end of None \<Rightarrow> len | Some r \<Rightarrow> relativeIndex len r)
      in take (nat (e - k)) (drop (nat k) xs))"

text \<open>The white space of \<open>\s\<close> and of \<open>trim()\<close> below code unit 256.\<close>

definition isWhitespace :: "char \<Rightarrow> bool" where
  "isWhitespace c = ((of_char c :: nat) \<in> {9, 10, 11, 12, 13, 32, 160})"

text \<open>The class \<open>\w\<close>: \<open>[A-Za-z0-9_]\<close>.\<close>

definition isWordChar :: "char \<Rightarrow> bool" where
  "isWordChar c =
     (let n = (of_char c :: nat)
      in (65 \<le> n \<and> n \<le> 90) \<or> (97 \<le> n \<and> n \<le> 122) \<or> (48 \<le> n \<and> n \<le> 57) \<or> n = 95)"

definition lowerChar :: "char \<Rightarrow> char" where
  "lowerChar c =
     (let n = (of_char c :: nat)
      in if (65 \<le> n \<and> n \<le> 90) \<or> (192 \<le> n \<and> n \<le> 222 \<and> n \<noteq> 215)
         then char_of (n + 32) else c)"

definition toLowerCase :: "string \<Rightarrow> string" where
  "toLowerCase s = map lowerChar s"

definition trim :: "string \<Rightarrow> string" where
  "trim s = rev (dropWhile isWhitespace (rev (dropWhile isWhitespace s)))"

text \<open>
  \<open>split(/\s+/)\<close>: the pieces between maximal runs of white space, an empty piece
  before a leading run and after a trailing one.
\<close>

fun splitRuns :: "bool \<Rightarrow> string \<Rightarrow> string \<Rightarrow> string list" where
  "splitRuns inRun cur [] = [rev cur]"
| "splitRuns inRun cur (c # cs) =
     (if isWhitespace c
      then (if inRun then splitRuns True [] cs else rev cur # splitRuns True [] cs)
      else splitRuns False (c # cur) cs)"

definition splitWhitespace :: "string \<Rightarrow> string list" where
  "splitWhitespace s = splitRuns False [] s"

section \<open>Conversation memory\<close>

text \<open>
  The \<open>id\<close> of an inbound message is the identifier the transport gave it; the
  identifier of a reply is the string \<open>bot_\<close> followed by the time of its creation.
\<close>

datatype message_id = InboundId string | BotId int

record message_core =
  msg_id :: message_id
  sender :: string
  body :: string
  timestamp :: int
  msg_type :: string

record message = message_core +
  fromMe :: bool

record stored_message = message_core +
  addedAt :: int

record conversation =
  conv_id :: string
  messages :: "stored_message list"
  createdAt :: int
  updatedAt :: int

record summary =
  conversationId :: string
  messageCount :: nat
  timeRange_start :: "int option"
  timeRange_end :: "int option"
  keyTopics :: "string list option"
  summary_createdAt :: int

text \<open>
  The in-memory cache of \<open>ConversationMemory\<close> with the two limits its constructor
  reads from the configuration. The files it writes are best effort (every write is
  wrapped in its own \<open>try\<close>) and are read back only at start-up, so they are not part of
  the state here.
\<close>

record memory =
  conversations :: "string \<rightharpoonup> conversation"
  summaries :: "string \<rightharpoonup> summary"
  maxContextMessages :: int
  summarizationThreshold :: int

record conversation_context =
  ctx_messages :: "stored_message list"
  ctx_summary :: "summary nullable"
  totalMessages :: "nat option"

subsection \<open>Key topics\<close>

definition stopWords :: "string list" where
  "stopWords = [''the'', ''a'', ''an'', ''and'', ''or'', ''but'', ''in'', ''on'', ''at'', ''to'',
     ''for'', ''of'', ''with'', ''by'', ''is'', ''are'', ''was'', ''were'', ''be'', ''been'',
     ''have'', ''has'', ''had'', ''do'', ''does'', ''did'', ''will'', ''would'', ''could'',
     ''should'', ''may'', ''might'', ''can'', ''i'', ''you'', ''he'', ''she'', ''it'', ''we'',
     ''they'', ''me'', ''him'', ''her'', ''us'', ''them'']"

text \<open>
  The words of one body: lower case, every code unit that is neither \<open>\w\<close> nor white
  space removed, split at white space, words of at most two code units and stop words
  dropped.
\<close>

definition bodyWords :: "string \<Rightarrow> string list" where
  "bodyWords b =
     filter (\<lambda>w. length w > 2 \<and> w \<notin> set stopWords)
       (splitWhitespace (filter (\<lambda>c. isWordChar c \<or> isWhitespace c) (toLowerCase b)))"

definition messageWords :: "'a message_core_scheme list \<Rightarrow> string list" where
  "messageWords ms = concat (map (\<lambda>m. if body m \<noteq> [] then bodyWords (body m) else []) ms)"

text \<open>
  \<open>wordCount\<close> is an ordinary object. Its own string keys are kept in creation order;
  \<open>wordCount[word] = (wordCount[word] || 0) + 1\<close> creates the key at the end or
  updates it in place.
\<close>

fun increment :: "(string \<times> nat) list \<Rightarrow> string \<Rightarrow> (string \<times> nat) list" where
  "increment [] w = [(w, 1)]"
| "increment ((k, n) # kvs) w = (if k = w then (k, n + 1) # kvs else (k, n) # increment kvs w)"

text \<open>
  Two words meet properties \<open>wordCount\<close> inherits from \<open>Object.prototype\<close> (its other
  properties have a capital letter in their names, and the words are in lower case).
  Assigning a string to \<open>__proto__\<close> is ignored, so that word is never counted. Reading
  \<open>constructor\<close> the first time gives a function, and \<open>(wordCount[word] || 0) + 1\<close> is
  then a string, the text of the function followed by \<open>1\<close>; the assignment creates the
  key like any other, and every further occurrence appends another \<open>1\<close>. The number
  kept here under \<open>constructor\<close> is the number of its occurrences, which stands for
  that string.
\<close>

fun countWords :: "(string \<times> nat) list \<Rightarrow> string list \<Rightarrow> (string \<times> nat) list" where
  "countWords wc [] = wc"
| "countWords wc (w # ws) =
     (if w = ''__proto__'' then countWords wc ws else countWords (increment wc w) ws)"

text \<open>
  \<open>Object.entries\<close> lists the keys that are array indices first, in ascending numeric
  order, then the other keys in creation order. An array index is the canonical decimal
  numeral of an integer below \<open>2^32 - 1\<close>.
\<close>

definition isDigit :: "char \<Rightarrow> bool" where
  "isDigit c = (let n = (of_char c :: nat) in 48 \<le> n \<and> n \<le> 57)"

definition numericValue :: "string \<Rightarrow> int" where
  "numericValue s = foldl (\<lambda>acc c. 10 * acc + ((of_char c :: int) - 48)) 0 s"

definition isArrayIndex :: "string \<Rightarrow> bool" where
  "isArrayIndex s =
     (s \<noteq> [] \<and> list_all isDigit s \<and> (length s = 1 \<or> hd s \<noteq> CHR ''0'')
      \<and> numericValue s < 4294967295)"

definition objectEntries :: "(string \<times> nat) list \<Rightarrow> (string \<times> nat) list" where
  "objectEntries kvs =
     sort_key (\<lambda>(k, n). numericValue k) (filter (\<lambda>(k, n). isArrayIndex k) kvs)
     @ filter (\<lambda>(k, n). \<not> isArrayIndex k) kvs"

text \<open>
  \<open>sort(([,a], [,b]) => b - a)\<close> is a stable sort by descending count. With the entry
  of \<open>constructor\<close>, whose value is a string that is no numeral, \<open>b - a\<close> is \<open>NaN\<close>, which
  \<open>sort\<close> takes for \<open>0\<close>: that entry compares equal to every other. When the counts of
  the other entries are all the same, every comparison is \<open>0\<close> and the stable sort
  leaves the entries as they are. When two of them differ, the comparator is not
  consistent (equality is not transitive) and the language leaves the order to the
  implementation: \<open>sortEntries\<close> gives \<open>None\<close> then, and only then.
\<close>

definition sortEntries :: "(string \<times> nat) list \<Rightarrow> (string \<times> nat) list option" where
  "sortEntries entries =
     (if ''constructor'' \<in> set (map fst entries)
      then (if length (remdups (map snd (filter (\<lambda>(k, n). k \<noteq> ''constructor'') entries))) \<le> 1
            then Some entries else None)
      else Some (sort_key (\<lambda>(k, n). - int n) entries))"

text \<open>\<open>slice(0, 10)\<close> keeps the first ten entries.\<close>

definition extractKeyTopics :: "'a message_core_scheme list \<Rightarrow> string list option" where
  "extractKeyTopics ms =
     (case sortEntries (objectEntries (countWords [] (messageWords ms))) of
        None \<Rightarrow> None
      | Some ordered \<Rightarrow> Some (map fst (jsSlice ordered 0 (Some 10))))"

subsection \<open>Operations\<close>

definition summarizeConversation :: "memory \<Rightarrow> string \<Rightarrow> int \<Rightarrow> memory" where
  "summarizeConversation mem cid now =
     (case conversations mem cid of
        None \<Rightarrow> mem
      | Some conv \<Rightarrow>
          if int (length (messages conv)) < summarizationThreshold mem then mem
          else
            let messagesToSummarize = jsSlice (messages conv) 0 (Some (- maxContextMessages mem));
                recentMessages = jsSlice (messages conv) (- maxContextMessages mem) None;
                s = \<lparr> conversationId = cid,
                      messageCount = length messagesToSummarize,
                      timeRange_start =
                        (case messagesToSummarize of [] \<Rightarrow> None | m # _ \<Rightarrow> Some (timestamp m)),
                      timeRange_end =
                        (if messagesToSummarize = [] then None
                         else Some (timestamp (last messagesToSummarize))),
                      keyTopics = extractKeyTopics messagesToSummarize,
                      summary_createdAt = now \<rparr>
            in mem\<lparr> summaries := (summaries mem)(cid \<mapsto> s),
                    conversations := (conversations mem)(cid \<mapsto> conv\<lparr>messages := recentMessages\<rparr>) \<rparr>)"

definition storedMessage :: "'a message_core_scheme \<Rightarrow> int \<Rightarrow> stored_message" where
  "storedMessage m now =
     \<lparr> msg_id = msg_id m, sender = sender m, body = body m, timestamp = timestamp m,
       msg_type = msg_type m, addedAt = now \<rparr>"

definition addMessage :: "memory \<Rightarrow> string \<Rightarrow> 'a message_core_scheme \<Rightarrow> int \<Rightarrow> memory" where
  "addMessage mem cid m now =
     (let conv0 = (case conversations mem cid of
                     None \<Rightarrow> \<lparr> conv_id = cid, messages = [], createdAt = now, updatedAt = now \<rparr>
                   | Some c \<Rightarrow> c);
          conv1 = conv0\<lparr> messages := messages conv0 @ [storedMessage m now], updatedAt := now \<rparr>;
          mem1 = mem\<lparr> conversations := (conversations mem)(cid \<mapsto> conv1) \<rparr>
      in if int (length (messages conv1)) \<ge> summarizationThreshold mem
         then summarizeConversation mem1 cid now
         else mem1)"

text \<open>
  \<open>getConversationContext\<close> returns its result with the memory it leaves behind.
  \<open>maxMessages || this.maxContextMessages\<close> takes the configured limit when the
  argument is \<open>null\<close> or \<open>0\<close>.
\<close>

definition getConversationContext :: "memory \<Rightarrow> string \<Rightarrow> int option \<Rightarrow> conversation_context \<times> memory" where
  "getConversationContext mem cid maxMessages =
     (case conversations mem cid of
        None \<Rightarrow> (\<lparr> ctx_messages = [], ctx_summary = Null, totalMessages = None \<rparr>, mem)
      | Some conv \<Rightarrow>
          let limit = (case maxMessages of
                         None \<Rightarrow> maxContextMessages mem
                       | Some n \<Rightarrow> if n = 0 then maxContextMessages mem else n);
              recentMessages = jsSlice (messages conv) (- limit) None;
              s = (case summaries mem cid of None \<Rightarrow> Undefined | Some x \<Rightarrow> Defined x)
          in (\<lparr> ctx_messages = recentMessages, ctx_summary = s,
                totalMessages = Some (length (messages conv)) \<rparr>, mem))"

text \<open>Appending a sequence of messages to one conversation, one call after the other.\<close>

fun addMessages :: "memory \<Rightarrow> string \<Rightarrow> ('a message_core_scheme \<times> int) list \<Rightarrow> memory" where
  "addMessages mem cid [] = mem"
| "addMessages mem cid ((m, now) # rest) = addMessages (addMessage mem cid m now) cid rest"

subsection \<open>Reading the memory\<close>

text \<open>The messages a conversation retains; none when the conversation is not in memory.\<close>

definition retained :: "memory \<Rightarrow> string \<Rightarrow> stored_message list" where
  "retained mem cid = (case conversations mem cid of None \<Rightarrow> [] | Some c \<Rightarrow> messages c)"

text \<open>The stored form of every message of a sequence of appends, in order.\<close>

definition storedAll :: "('a message_core_scheme \<times> int) list \<Rightarrow> stored_message list" where
  "storedAll ms = map (\<lambda>(m, now). storedMessage m now) ms"

text \<open>
  With \<open>M\<close> the context limit and \<open>T\<close> the summarization threshold, the number of
  messages a new conversation retains after \<open>N\<close> appends, and the number the most recent
  summarization removed.
\<close>

definition retainedLength :: "nat \<Rightarrow> nat \<Rightarrow> nat \<Rightarrow> nat" where
  "retainedLength M T N =
     (if N < T then N else if M < T then M + (N - T) mod (T - M) else min N M)"

definition lastEvicted :: "nat \<Rightarrow> nat \<Rightarrow> nat \<Rightarrow> nat" where
  "lastEvicted M T N = (if M < T then T - M else if M < N then 1 else 0)"

subsection \<open>A small memory\<close>

definition exampleMemory :: memory where
  "exampleMemory = \<lparr> conversations = Map.empty, summaries = Map.empty,
     maxContextMessages = 2, summarizationThreshold = 5 \<rparr>"

definition exampleMessage :: "string \<Rightarrow> message" where
  "exampleMessage b = \<lparr> msg_id = InboundId ''m1'', sender = ''4915112345@c.us'', body = b,
     timestamp = 1700000000, msg_type = ''chat'', fromMe = False \<rparr>"

definition exampleSummarized :: memory where
  "exampleSummarized =
     addMessages exampleMemory ''c'' (replicate 5 (exampleMessage ''hello there'', 1700000000000))"

section \<open>Helpers\<close>

text \<open>\<open>text.startsWith(prefix)\<close> and \<open>text.includes(pattern)\<close>.\<close>

definition startsWith :: "string \<Rightarrow> string \<Rightarrow> bool" where
  "startsWith text p = (take (length p) text = p)"

fun jsIncludes :: "string \<Rightarrow> string \<Rightarrow> bool" where
  "jsIncludes [] p = (p = [])"
| "jsIncludes (c # cs) p = (startsWith (c # cs) p \<or> jsIncludes cs p)"

text \<open>\<open>replace(pattern, '')\<close> with a string pattern removes its first occurrence.\<close>

fun removeFirst :: "string \<Rightarrow> string \<Rightarrow> string" where
  "removeFirst p [] = []"
| "removeFirst p (c # cs) =
     (if startsWith (c # cs) p then drop (length p) (c # cs) else c # removeFirst p cs)"

definition isAlphanumeric :: "char \<Rightarrow> bool" where
  "isAlphanumeric c =
     (let n = (of_char c :: nat)
      in (65 \<le> n \<and> n \<le> 90) \<or> (97 \<le> n \<and> n \<le> 122) \<or> (48 \<le> n \<and> n \<le> 57))"

definition generateConversationId :: "string \<Rightarrow> string" where
  "generateConversationId contactId =
     map (\<lambda>c. if isAlphanumeric c then c else CHR ''_'') (removeFirst ''@c.us'' contactId)"

definition isGroupMessage :: "'a message_core_scheme \<Rightarrow> bool" where
  "isGroupMessage m = jsIncludes (sender m) ''@g.us''"

text \<open>\<open>isCommand\<close>: \<open>text && text.startsWith(prefix)\<close>.\<close>

definition isCommand :: "string \<Rightarrow> string \<Rightarrow> bool" where
  "isCommand text p = (text \<noteq> [] \<and> startsWith text p)"

text \<open>\<open>split(' ')\<close> cuts at every single space and keeps empty pieces.\<close>

fun splitOn :: "char \<Rightarrow> string \<Rightarrow> string \<Rightarrow> string list" where
  "splitOn sep cur [] = [rev cur]"
| "splitOn sep cur (c # cs) =
     (if c = sep then rev cur # splitOn sep [] cs else splitOn sep (c # cur) cs)"

record command =
  cmd_name :: "string option"
  cmd_args :: "string list"

definition parseCommand :: "string \<Rightarrow> string \<Rightarrow> command" where
  "parseCommand text p =
     (if \<not> isCommand text p then \<lparr> cmd_name = None, cmd_args = [] \<rparr>
      else case splitOn CHR '' '' [] (trim (drop (length p) text)) of
             [] \<Rightarrow> \<lparr> cmd_name = None, cmd_args = [] \<rparr>
           | part # parts \<Rightarrow> \<lparr> cmd_name = Some (toLowerCase part), cmd_args = parts \<rparr>)"

text \<open>
  One \<open>Map\<close> holds the time of the last response under the key \<open>cooldown_<contact>\<close>
  and the array of recent response times under the key \<open>frequency_<contact>\<close>.
\<close>

datatype cooldown_value = Timestamp int | Timestamps "int list"

definition getCooldownKey :: "string \<Rightarrow> string" where
  "getCooldownKey contactId = ''cooldown_'' @ contactId"

text \<open>
  \<open>isCooldownExpired\<close>: no entry or a falsy one (\<open>0\<close>) counts as expired. An array in the
  place of the number is converted by the subtraction: the empty array to \<open>0\<close>, a
  one-element array to its element, a longer one to \<open>NaN\<close>, which is never \<open>>=\<close>.
\<close>

definition isCooldownExpired :: "(string \<rightharpoonup> cooldown_value) \<Rightarrow> string \<Rightarrow> int \<Rightarrow> int \<Rightarrow> bool" where
  "isCooldownExpired cooldownMap key cooldownMs now =
     (case cooldownMap key of
        None \<Rightarrow> True
      | Some (Timestamp lastResponse) \<Rightarrow> lastResponse = 0 \<or> now - lastResponse \<ge> cooldownMs
      | Some (Timestamps []) \<Rightarrow> now \<ge> cooldownMs
      | Some (Timestamps [t]) \<Rightarrow> now - t \<ge> cooldownMs
      | Some (Timestamps _) \<Rightarrow> False)"

definition updateCooldown :: "(string \<rightharpoonup> cooldown_value) \<Rightarrow> string \<Rightarrow> int \<Rightarrow> (string \<rightharpoonup> cooldown_value)" where
  "updateCooldown cooldownMap key now = cooldownMap(key \<mapsto> Timestamp now)"

section \<open>Configuration\<close>

text \<open>
  The values the handlers read from the configuration, the personality table of the
  loader (absent until \<open>initialize\<close> has set it), and whether the callback that sends a
  message has been installed.
\<close>

record personality_profile =
  profile_name :: string
  displayName :: string
  description :: string

record bot_config =
  prefix :: string
  commandsEnabled :: bool
  availableCommands :: "string list"
  personality :: string
  maxResponseLength :: int
  responseDelay :: int
  autoResponsesEnabled :: bool
  responseFrequencyLimit :: int
  ignoreGroups :: bool
  ignoredContacts :: "string list"
  personalityLoader :: "personality_profile list option"
  sendMessageCallback :: bool

section \<open>Command handler\<close>

record user_settings =
  responsesEnabled :: bool
  lastCommand :: "int option"
  commandCount :: nat

text \<open>
  The texts a command answers with. Each constructor stands for one template of the
  source, a non-empty string, with the values the template interpolates;
  \<open>MessageObject\<close> is the message itself, which the inherited property \<open>constructor\<close> of
  the handler table returns when the configuration lists that name.
\<close>

datatype command_reply =
    UnknownCommand string string
  | NotImplemented string
  | HelpText string
  | StatusText bool string bool int int
  | StopText string
  | StartText string int string
  | InfoText string bool int int bool
  | PersonalitiesUnavailable
  | PersonalitiesText "(string \<times> string \<times> bool) list" string
  | CommandError
  | MessageObject

definition getUserSettings ::
  "bot_config \<Rightarrow> (string \<rightharpoonup> user_settings) \<Rightarrow> string \<Rightarrow> user_settings \<times> (string \<rightharpoonup> user_settings)" where
  "getUserSettings cfg settings contactId =
     (case settings contactId of
        None \<Rightarrow>
          (let fresh = \<lparr> responsesEnabled = autoResponsesEnabled cfg, lastCommand = None,
                         commandCount = 0 \<rparr>
           in (fresh, settings(contactId \<mapsto> fresh)))
      | Some s \<Rightarrow> (s, settings))"

definition setResponsesEnabled ::
  "bot_config \<Rightarrow> (string \<rightharpoonup> user_settings) \<Rightarrow> string \<Rightarrow> bool \<Rightarrow> (string \<rightharpoonup> user_settings)" where
  "setResponsesEnabled cfg settings contactId b =
     (let (currentSettings, settings1) = getUserSettings cfg settings contactId
      in settings1(contactId \<mapsto> currentSettings\<lparr> responsesEnabled := b \<rparr>))"

definition isUserResponsesEnabled ::
  "bot_config \<Rightarrow> (string \<rightharpoonup> user_settings) \<Rightarrow> string \<Rightarrow> bool \<times> (string \<rightharpoonup> user_settings)" where
  "isUserResponsesEnabled cfg settings contactId =
     (let (s, settings1) = getUserSettings cfg settings contactId
      in (responsesEnabled s, settings1))"

definition personalityLabel :: "bot_config \<Rightarrow> string" where
  "personalityLabel cfg =
     (if personality cfg = ''custom'' then ''Custom (Your Style)'' else personality cfg)"

definition handleHelp :: "bot_config \<Rightarrow> command_reply" where
  "handleHelp cfg = HelpText (prefix cfg)"

definition handleStatus ::
  "bot_config \<Rightarrow> (string \<rightharpoonup> user_settings) \<Rightarrow> 'a message_core_scheme
     \<Rightarrow> command_reply \<times> (string \<rightharpoonup> user_settings)" where
  "handleStatus cfg settings m =
     (let (s, settings1) = getUserSettings cfg settings (sender m)
      in (StatusText (responsesEnabled s) (personalityLabel cfg) (commandsEnabled cfg)
            (maxResponseLength cfg) (responseDelay cfg), settings1))"

definition handleStop ::
  "bot_config \<Rightarrow> (string \<rightharpoonup> user_settings) \<Rightarrow> 'a message_core_scheme
     \<Rightarrow> command_reply \<times> (string \<rightharpoonup> user_settings)" where
  "handleStop cfg settings m =
     (StopText (prefix cfg), setResponsesEnabled cfg settings (sender m) False)"

definition handleStart ::
  "bot_config \<Rightarrow> (string \<rightharpoonup> user_settings) \<Rightarrow> 'a message_core_scheme
     \<Rightarrow> command_reply \<times> (string \<rightharpoonup> user_settings)" where
  "handleStart cfg settings m =
     (StartText (personalityLabel cfg) (maxResponseLength cfg) (prefix cfg),
      setResponsesEnabled cfg settings (sender m) True)"

definition handleInfo ::
  "bot_config \<Rightarrow> (string \<rightharpoonup> user_settings) \<Rightarrow> 'a message_core_scheme
     \<Rightarrow> command_reply \<times> (string \<rightharpoonup> user_settings)" where
  "handleInfo cfg settings m =
     (let (s, settings1) = getUserSettings cfg settings (sender m)
      in (InfoText (personalityLabel cfg) (autoResponsesEnabled cfg) (responseDelay cfg)
            (maxResponseLength cfg) (responsesEnabled s), settings1))"

definition handlePersonalities :: "bot_config \<Rightarrow> command_reply" where
  "handlePersonalities cfg =
     (case personalityLoader cfg of
        None \<Rightarrow> PersonalitiesUnavailable
      | Some personalities \<Rightarrow>
          PersonalitiesText
            (map (\<lambda>p. (displayName p, description p, profile_name p = personality cfg)) personalities)
            (personality cfg))"

text \<open>
  \<open>processCommand\<close>. \<open>this.commands[name]\<close> finds the six handlers and, for the names
  \<open>constructor\<close> and \<open>__proto__\<close>, properties every object inherits: the first is a
  function that returns its argument, the second is not a function and calling it
  throws, which the \<open>catch\<close> turns into the error text.
\<close>

definition processCommand ::
  "bot_config \<Rightarrow> (string \<rightharpoonup> user_settings) \<Rightarrow> 'a message_core_scheme
     \<Rightarrow> command_reply option \<times> (string \<rightharpoonup> user_settings)" where
  "processCommand cfg settings m =
     (if \<not> commandsEnabled cfg \<or> body m = [] then (None, settings)
      else case cmd_name (parseCommand (body m) (prefix cfg)) of
             None \<Rightarrow> (None, settings)
           | Some name \<Rightarrow>
               if name = [] then (None, settings)
               else if name \<notin> set (availableCommands cfg)
                 then (Some (UnknownCommand name (prefix cfg)), settings)
               else if name = ''help'' then (Some (handleHelp cfg), settings)
               else if name = ''status'' then apfst Some (handleStatus cfg settings m)
               else if name = ''stop'' then apfst Some (handleStop cfg settings m)
               else if name = ''start'' then apfst Some (handleStart cfg settings m)
               else if name = ''info'' then apfst Some (handleInfo cfg settings m)
               else if name = ''personalities'' then (Some (handlePersonalities cfg), settings)
               else if name = ''constructor'' then (Some MessageObject, settings)
               else if name = ''__proto__'' then (Some CommandError, settings)
               else (Some (NotImplemented name), settings))"

section \<open>Response handler\<close>

text \<open>
  The five replacements of \<open>cleanResponse\<close>, each a left-to-right scan for the
  leftmost match, as \<open>replace\<close> with a global pattern does.
  \<open>/```[\s\S]*?```/g\<close> removes from a fence to the nearest closing fence.
\<close>

definition backtick :: char where
  "backtick = CHR 0x60"

definition fence :: string where
  "fence = [backtick, backtick, backtick]"

fun afterFence :: "string \<Rightarrow> string option" where
  "afterFence [] = None"
| "afterFence (c # cs) = (if startsWith (c # cs) fence then Some (drop 3 (c # cs)) else afterFence cs)"

lemma afterFence_length: "afterFence s = Some r \<Longrightarrow> length r \<le> length s"
  by (induction s) (auto split: if_splits)

function stripCodeBlocks :: "string \<Rightarrow> string" where
  "stripCodeBlocks [] = []"
| "stripCodeBlocks (c # cs) =
     (if startsWith (c # cs) fence
      then (case afterFence (drop 3 (c # cs)) of
              Some rest \<Rightarrow> stripCodeBlocks rest
            | None \<Rightarrow> c # stripCodeBlocks cs)
      else c # stripCodeBlocks cs)"
  by pat_completeness auto
termination
proof (relation "measure length")
  fix c cs rest
  assume "startsWith (c # cs) fence" "afterFence (drop 3 (c # cs)) = Some rest"
  then have "length rest \<le> length (drop 3 (c # cs))" by (intro afterFence_length)
  also have "\<dots> < length (c # cs)" by simp
  finally show "(rest, c # cs) \<in> measure length" by simp
qed auto

text \<open>
  \<open>/`[^`]*`/g\<close> removes from a backtick to the next one; a backtick with none after it
  stays.
\<close>

function stripInlineCode :: "string \<Rightarrow> string" where
  "stripInlineCode [] = []"
| "stripInlineCode (c # cs) =
     (if c = backtick
      then (case dropWhile (\<lambda>x. x \<noteq> backtick) cs of
              [] \<Rightarrow> c # stripInlineCode cs
            | _ # rest \<Rightarrow> stripInlineCode rest)
      else c # stripInlineCode cs)"
  by pat_completeness auto
termination
proof (relation "measure length")
  fix c cs x rest
  assume "dropWhile (\<lambda>x. x \<noteq> backtick) cs = x # rest"
  then have "length (x # rest) \<le> length cs" by (metis length_dropWhile_le)
  then show "(rest, c # cs) \<in> measure length" by simp
qed auto

text \<open>
  \<open>/\*\*([^*]+)\*\*/g\<close> and \<open>/\*([^*]+)\*/g\<close>, replaced by \<open>$1\<close>: the opening stars, a
  non-empty run without a star, which the match takes whole, and the closing stars
  right after it; only the run is kept.
\<close>

definition star :: char where
  "star = CHR ''*''"

function stripBold :: "string \<Rightarrow> string" where
  "stripBold [] = []"
| "stripBold (c # cs) =
     (let inner = takeWhile (\<lambda>x. x \<noteq> star) (drop 2 (c # cs));
          after = dropWhile (\<lambda>x. x \<noteq> star) (drop 2 (c # cs))
      in if startsWith (c # cs) [star, star] \<and> inner \<noteq> [] \<and> startsWith after [star, star]
         then inner @ stripBold (drop 2 after)
         else c # stripBold cs)"
  by pat_completeness auto
termination
proof (relation "measure length")
  fix c cs inner after
  assume a: "after = dropWhile (\<lambda>x. x \<noteq> star) (drop 2 (c # cs))"
  have "length (drop 2 after) \<le> length after" by simp
  also have "\<dots> \<le> length (drop 2 (c # cs))" unfolding a by (rule length_dropWhile_le)
  also have "\<dots> < length (c # cs)" by simp
  finally show "(drop 2 after, c # cs) \<in> measure length" by simp
qed auto

function stripItalic :: "string \<Rightarrow> string" where
  "stripItalic [] = []"
| "stripItalic (c # cs) =
     (let inner = takeWhile (\<lambda>x. x \<noteq> star) cs;
          after = dropWhile (\<lambda>x. x \<noteq> star) cs
      in if c = star \<and> inner \<noteq> [] \<and> after \<noteq> []
         then inner @ stripItalic (tl after)
         else c # stripItalic cs)"
  by pat_completeness auto
termination
proof (relation "measure length")
  fix c cs inner after
  assume "after = dropWhile (\<lambda>x. x \<noteq> star) cs"
  then have "length after \<le> length cs" by (simp add: length_dropWhile_le)
  then show "(tl after, c # cs) \<in> measure length" by simp
qed auto

text \<open>
  \<open>/#{1,6}\s+/g\<close> removes a run of hash signs with the white space after it. At a hash
  sign the match succeeds when the run from there has at most six signs and white space
  follows it; of a longer run the first signs stay.
\<close>

definition hash :: char where
  "hash = CHR ''#''"

function stripHeaders :: "string \<Rightarrow> string" where
  "stripHeaders [] = []"
| "stripHeaders (c # cs) =
     (let hashes = takeWhile (\<lambda>x. x = hash) (c # cs);
          after = dropWhile (\<lambda>x. x = hash) (c # cs)
      in if c = hash \<and> length hashes \<le> 6 \<and> after \<noteq> [] \<and> isWhitespace (hd after)
         then stripHeaders (dropWhile isWhitespace after)
         else c # stripHeaders cs)"
  by pat_completeness auto
termination
proof (relation "measure length")
  fix c cs and hashes :: string and after
  assume a: "after = dropWhile (\<lambda>x. x = hash) (c # cs)"
    and b: "c = hash \<and> length hashes \<le> 6 \<and> after \<noteq> [] \<and> isWhitespace (hd after)"
  have "length (dropWhile isWhitespace after) \<le> length after" by (rule length_dropWhile_le)
  moreover have "length after \<le> length cs" using a b by (simp add: length_dropWhile_le)
  ultimately show "(dropWhile isWhitespace after, c # cs) \<in> measure length" by simp
qed auto

text \<open>
  \<open>substring(0, n)\<close>: a negative end is \<open>0\<close>, an end beyond the string is its length.
\<close>

definition substringTo :: "string \<Rightarrow> int \<Rightarrow> string" where
  "substringTo s n = take (nat n) s"

definition truncateText :: "int \<Rightarrow> string \<Rightarrow> string" where
  "truncateText maxLength text =
     (if int (length text) > maxLength then substringTo text (maxLength - 3) @ ''...'' else text)"

definition fallbacks :: "string list" where
  "fallbacks =
     [''I'm sorry, I'm having trouble processing your message right now. Please try again in a moment.'',
      ''I apologize, but I'm experiencing some technical difficulties. Could you please rephrase your question?'',
      ''I'm having trouble understanding that right now. Could you try asking in a different way?'',
      ''I'm sorry, I'm not able to respond properly at the moment. Please try again later.'',
      ''I'm experiencing some issues right now. Please give me a moment and try again.'']"

text \<open>
  \<open>fallbacks[Math.floor(Math.random() * fallbacks.length)]\<close>: the draw is a number
  from \<open>0\<close> to \<open>4\<close>, given here by the caller; a larger number stands for its residue.
\<close>

definition getFallbackResponse :: "nat \<Rightarrow> string" where
  "getFallbackResponse draw = fallbacks ! (draw mod length fallbacks)"

definition stripMarkup :: "string \<Rightarrow> string" where
  "stripMarkup s = stripHeaders (stripItalic (stripBold (stripInlineCode (stripCodeBlocks s))))"

definition cleanResponse :: "bot_config \<Rightarrow> string \<Rightarrow> nat \<Rightarrow> string" where
  "cleanResponse cfg response draw =
     (if response = [] then getFallbackResponse draw
      else
        let cleaned = truncateText (maxResponseLength cfg) (stripMarkup (trim response))
        in if cleaned = [] \<or> length cleaned < 3 then getFallbackResponse draw else cleaned)"

text \<open>
  \<open>ResponseHandler.generateResponse\<close> awaits \<open>this.geminiAI.generateResponse(...)\<close>, the
  generation capability: the call returns a text or throws an error with a message
  (see \<open>geminiGenerateResponse\<close> below for when it does).
\<close>

datatype js_error = Error string

definition generateResponse :: "bot_config \<Rightarrow> js_error + string \<Rightarrow> nat \<Rightarrow> string" where
  "generateResponse cfg generated draw =
     (case generated of
        Inl error \<Rightarrow> getFallbackResponse draw
      | Inr response \<Rightarrow> cleanResponse cfg response draw)"

section \<open>Gemini client\<close>

definition geminiFallbacks :: "string list" where
  "geminiFallbacks = take 4 fallbacks"

text \<open>
  What the model call may throw: an error with a message, or, as any JavaScript call
  may, the value \<open>null\<close> or \<open>undefined\<close>.
\<close>

datatype thrown_value = ErrorValue string | NullishValue

text \<open>
  \<open>GeminiAI.generateResponse\<close> truncates the text of the model and answers a failure of
  the model with one of its own four fallback texts, the first four of the five above.
  Its \<open>catch\<close> block reads \<open>error.message\<close> for the log, so it throws itself, a
  \<open>TypeError\<close>, when the value caught is \<open>null\<close> or \<open>undefined\<close>.
\<close>

definition geminiGenerateResponse ::
  "bot_config \<Rightarrow> thrown_value + string \<Rightarrow> nat \<Rightarrow> js_error + string" where
  "geminiGenerateResponse cfg modelResult draw =
     (case modelResult of
        Inr text \<Rightarrow> Inr (truncateText (maxResponseLength cfg) text)
      | Inl (ErrorValue message) \<Rightarrow> Inr (geminiFallbacks ! (draw mod length geminiFallbacks))
      | Inl NullishValue \<Rightarrow> Inl (Error ''Cannot read properties of undefined''))"

section \<open>Message handler\<close>

text \<open>
  What the handler sends is a command reply or a response text. The state of the
  handler is the memory, the user settings of the command handler, the cooldown map,
  and two logs: the calls of the send callback and the calls of the generation
  capability, each in order.
\<close>

datatype outbound = CommandReply command_reply | ResponseText string

record generation_request =
  req_message :: string
  req_context :: conversation_context
  req_contactName :: string

record handler_state =
  memory :: memory
  userSettings :: "string \<rightharpoonup> user_settings"
  cooldownMap :: "string \<rightharpoonup> cooldown_value"
  sent :: "(string \<times> outbound) list"
  generationCalls :: "generation_request list"

text \<open>
  What the world answers while one message is handled: the readings of \<open>Date.now()\<close>,
  one for each phase (the filters, the append of the inbound message, the frequency
  check, the reply and its append, the cooldown update), the name the contact lookup
  gives if any, the outcome of the generation capability, and the random draw of the
  fallback.
\<close>

record event_env =
  now_filter :: int
  now_append :: int
  now_frequency :: int
  now_reply :: int
  now_sent :: int
  contactName :: "string option"
  generated :: "js_error + string"
  draw :: nat

text \<open>
  \<open>checkResponseFrequency\<close>. The window is fixed at 60000 ms. A number found where
  the array should be has no \<open>filter\<close> method, and the call throws.
\<close>

definition checkResponseFrequency ::
  "bot_config \<Rightarrow> (string \<rightharpoonup> cooldown_value) \<Rightarrow> string \<Rightarrow> int
     \<Rightarrow> (js_error + bool) \<times> (string \<rightharpoonup> cooldown_value)" where
  "checkResponseFrequency cfg cooldowns contactId now =
     (let key = ''frequency_'' @ contactId;
          windowMs = 60000;
          cooldowns1 = (if cooldowns key = None then cooldowns(key \<mapsto> Timestamps []) else cooldowns)
      in case cooldowns1 key of
           Some (Timestamps timestamps) \<Rightarrow>
             let cutoff = now - windowMs;
                 recentTimestamps = filter (\<lambda>ts. ts > cutoff) timestamps
             in if int (length recentTimestamps) \<ge> responseFrequencyLimit cfg
                then (Inr False, cooldowns1)
                else (Inr True, cooldowns1(key \<mapsto> Timestamps (recentTimestamps @ [now])))
         | _ \<Rightarrow> (Inl (Error ''timestamps.filter is not a function''), cooldowns1))"

definition sendResponse :: "bot_config \<Rightarrow> handler_state \<Rightarrow> string \<Rightarrow> outbound \<Rightarrow> handler_state" where
  "sendResponse cfg st contactId response =
     (if sendMessageCallback cfg then st\<lparr> sent := sent st @ [(contactId, response)] \<rparr> else st)"

definition botMessage :: "string \<Rightarrow> int \<Rightarrow> message_core" where
  "botMessage response now =
     \<lparr> msg_id = BotId now, sender = ''bot'', body = response, timestamp = now div 1000,
       msg_type = ''text'' \<rparr>"

definition generateAIResponse ::
  "bot_config \<Rightarrow> event_env \<Rightarrow> handler_state \<Rightarrow> 'a message_core_scheme \<Rightarrow> string
     \<Rightarrow> string option \<times> handler_state" where
  "generateAIResponse cfg env st m cid =
     (let (context, mem1) = getConversationContext (memory st) cid None;
          name = (case contactName env of None \<Rightarrow> ''User'' | Some n \<Rightarrow> n);
          response = generateResponse cfg (generated env) (draw env);
          st1 = st\<lparr> memory := mem1,
                    generationCalls := generationCalls st
                      @ [\<lparr> req_message = body m, req_context = context, req_contactName = name \<rparr>] \<rparr>
      in if response \<noteq> []
         then (Some response,
               st1\<lparr> memory := addMessage (memory st1) cid (botMessage response (now_reply env))
                                  (now_reply env) \<rparr>)
         else (Some response, st1))"

text \<open>The six filters of \<open>handleMessage\<close>; a message that fails one is dropped.\<close>

definition passesFilters :: "bot_config \<Rightarrow> handler_state \<Rightarrow> message \<Rightarrow> int \<Rightarrow> bool" where
  "passesFilters cfg st m now =
     (sender m \<notin> set (ignoredContacts cfg)
      \<and> \<not> (isGroupMessage m \<and> ignoreGroups cfg)
      \<and> sender m \<noteq> ''status@broadcast''
      \<and> \<not> fromMe m
      \<and> \<not> (body m = [] \<or> length (trim (body m)) = 0)
      \<and> isCooldownExpired (cooldownMap st) (getCooldownKey (sender m)) 1000 now)"

definition handleMessage :: "bot_config \<Rightarrow> event_env \<Rightarrow> handler_state \<Rightarrow> message \<Rightarrow> handler_state" where
  "handleMessage cfg env st m =
     (if \<not> passesFilters cfg st m (now_filter env) then st
      else
        let cooldownKey = getCooldownKey (sender m);
            cid = generateConversationId (sender m);
            st1 = st\<lparr> memory := addMessage (memory st) cid m (now_append env) \<rparr>;
            (commandResponse, settings1) = processCommand cfg (userSettings st1) m;
            st2 = st1\<lparr> userSettings := settings1 \<rparr>
        in case commandResponse of
             Some reply \<Rightarrow>
               (sendResponse cfg st2 (sender m) (CommandReply reply))
                 \<lparr> cooldownMap := updateCooldown (cooldownMap st2) cooldownKey (now_sent env) \<rparr>
           | None \<Rightarrow>
               let (enabled, settings2) = isUserResponsesEnabled cfg (userSettings st2) (sender m);
                   st3 = st2\<lparr> userSettings := settings2 \<rparr>
               in if \<not> enabled then st3
                  else
                    let (allowed, cooldowns) =
                          checkResponseFrequency cfg (cooldownMap st3) (sender m) (now_frequency env);
                        st4 = st3\<lparr> cooldownMap := cooldowns \<rparr>
                    in if allowed \<noteq> Inr True then st4
                       else
                         let (response, st5) = generateAIResponse cfg env st4 m cid
                         in case response of
                              None \<Rightarrow> st5
                            | Some text \<Rightarrow>
                                if text = [] then st5
                                else (sendResponse cfg st5 (sender m) (ResponseText text))
                                       \<lparr> cooldownMap :=
                                           updateCooldown (cooldownMap st5) cooldownKey (now_sent env) \<rparr>)"


section \<open>Notions the properties are stated with\<close>

subsection \<open>Key topics\<close>

text \<open>
  The distinct words of a list in the order of their first occurrence; the order in
  which an object enumerates them as keys (array indices first, ascending, then the
  others as they are); and the ten most frequent of a list of keys, a stable sort
  keeping the given order among keys of equal frequency.
\<close>

definition firstOccurrences :: "string list \<Rightarrow> string list" where
  "firstOccurrences ws = rev (remdups (rev ws))"

definition keyOrder :: "string list \<Rightarrow> string list" where
  "keyOrder ks = sort_key numericValue (filter isArrayIndex ks) @ filter (\<lambda>k. \<not> isArrayIndex k) ks"

definition rankedTopics :: "string list \<Rightarrow> string list \<Rightarrow> string list" where
  "rankedTopics ws ks = take 10 (sort_key (\<lambda>w. - int (count_list ws w)) ks)"

definition tally :: "string list \<Rightarrow> (string \<times> nat) list" where
  "tally ws = map (\<lambda>w. (w, count_list ws w)) (firstOccurrences ws)"

text \<open>
  The words of a message body as the specification words them. Lower case: the letters
  \<open>A\<close> to \<open>Z\<close> become \<open>a\<close> to \<open>z\<close> (a letter beyond these is no word character in
  either case and goes with the punctuation). Punctuation stripped: only the letters
  \<open>a\<close> to \<open>z\<close> and \<open>A\<close> to \<open>Z\<close>, the digits, the underscore and white space are kept.
  Tokenized at white space: the tokens are the maximal runs of characters that are not
  white space. Then the tokens of at most two characters and the stop words are dropped.
\<close>

definition specLetters :: "(char \<times> char) list" where
  "specLetters = zip ''ABCDEFGHIJKLMNOPQRSTUVWXYZ'' ''abcdefghijklmnopqrstuvwxyz''"

definition specLower :: "char \<Rightarrow> char" where
  "specLower c = (case map_of specLetters c of Some d \<Rightarrow> d | None \<Rightarrow> c)"

definition specWordChars :: string where
  "specWordChars = ''abcdefghijklmnopqrstuvwxyzABCDEFGHIJKLMNOPQRSTUVWXYZ0123456789_''"

definition specSpaces :: string where
  "specSpaces = [CHR 0x09, CHR 0x0A, CHR 0x0B, CHR 0x0C, CHR 0x0D, CHR 0x20, CHR 0xA0]"

function specTokens :: "string \<Rightarrow> string list" where
  "specTokens s =
     (case dropWhile (\<lambda>c. c \<in> set specSpaces) s of
        [] \<Rightarrow> []
      | c # cs \<Rightarrow> takeWhile (\<lambda>x. x \<notin> set specSpaces) (c # cs)
                  # specTokens (dropWhile (\<lambda>x. x \<notin> set specSpaces) (c # cs)))"
  by pat_completeness auto
termination
proof (relation "measure length")
  fix s :: string and c cs
  assume a: "dropWhile (\<lambda>c. c \<in> set specSpaces) s = c # cs"
  then have "c \<notin> set specSpaces" using hd_dropWhile [of "\<lambda>c. c \<in> set specSpaces" s] by auto
  then have "dropWhile (\<lambda>x. x \<notin> set specSpaces) (c # cs) = dropWhile (\<lambda>x. x \<notin> set specSpaces) cs"
    by simp
  moreover have "length (dropWhile (\<lambda>x. x \<notin> set specSpaces) cs) \<le> length cs"
    by (rule length_dropWhile_le)
  moreover have "length (c # cs) \<le> length s"
    using length_dropWhile_le [of "\<lambda>c. c \<in> set specSpaces" s] a by simp
  ultimately show "(dropWhile (\<lambda>x. x \<notin> set specSpaces) (c # cs), s) \<in> measure length" by simp
qed simp

declare specTokens.simps [simp del]

definition specBodyWords :: "string \<Rightarrow> string list" where
  "specBodyWords b =
     filter (\<lambda>w. \<not> length w \<le> 2 \<and> w \<notin> set stopWords)
       (specTokens (filter (\<lambda>c. c \<in> set specWordChars \<or> c \<in> set specSpaces) (map specLower b)))"

definition specWords :: "'a message_core_scheme list \<Rightarrow> string list" where
  "specWords ms = concat (map (\<lambda>m. specBodyWords (body m)) ms)"

text \<open>
  The key topics as the specification words them: the ten most frequent words, ties
  broken by first occurrence.
\<close>

definition specKeyTopics :: "'a message_core_scheme list \<Rightarrow> string list" where
  "specKeyTopics ms = rankedTopics (specWords ms) (firstOccurrences (specWords ms))"

definition exampleStored :: "string \<Rightarrow> stored_message" where
  "exampleStored b = storedMessage (exampleMessage b) 1700000000000"

definition exampleFull :: memory where
  "exampleFull = exampleMemory\<lparr> conversations :=
     [''c'' \<mapsto> \<lparr> conv_id = ''c'',
                 messages = [exampleStored ''Hello world'',
                             exampleStored ''hello again, World! Go on'',
                             exampleStored ''Hi - the WEATHER is so nice, OK?'',
                             exampleStored ''ok'', exampleStored ''bye for now''],
                 createdAt = 1700000000000, updatedAt = 1700000000000 \<rparr>] \<rparr>"

subsection \<open>Response frequency\<close>

definition exampleConfig :: bot_config where
  "exampleConfig = \<lparr> prefix = ''/'', commandsEnabled = True,
     availableCommands = [''help'', ''status'', ''stop'', ''start'', ''info''],
     personality = ''friendly'', maxResponseLength = 500, responseDelay = 0,
     autoResponsesEnabled = True, responseFrequencyLimit = 3, ignoreGroups = True,
     ignoredContacts = [], personalityLoader = None, sendMessageCallback = True \<rparr>"

definition exampleShort :: bot_config where
  "exampleShort = exampleConfig\<lparr> maxResponseLength := 100 \<rparr>"

definition exampleDisabled :: bot_config where
  "exampleDisabled = exampleConfig\<lparr> commandsEnabled := False \<rparr>"

text \<open>
  The recorded timestamps of the window as the specification words it, the closed
  interval from \<open>now - windowMs\<close> to \<open>now\<close>; and as the code filters them, the
  timestamps later than \<open>now - 60000\<close>.
\<close>

definition withinClosedWindow :: "int \<Rightarrow> int \<Rightarrow> int list \<Rightarrow> int list" where
  "withinClosedWindow now windowMs timestamps =
     filter (\<lambda>ts. now - windowMs \<le> ts \<and> ts \<le> now) timestamps"

definition recentAt :: "int \<Rightarrow> int list \<Rightarrow> int list" where
  "recentAt now timestamps = filter (\<lambda>ts. now - 60000 < ts) timestamps"

text \<open>
  The response times recorded for a contact: none when the map has no entry for the
  contact, and no answer when the entry is not an array.
\<close>

definition recorded :: "(string \<rightharpoonup> cooldown_value) \<Rightarrow> string \<Rightarrow> int list option" where
  "recorded cooldowns contactId =
     (case cooldowns (''frequency_'' @ contactId) of
        None \<Rightarrow> Some []
      | Some (Timestamps ts) \<Rightarrow> Some ts
      | Some (Timestamp t) \<Rightarrow> None)"

text \<open>The frequency check called at each time of a list, in order, for one contact.\<close>

fun checkSequence ::
  "bot_config \<Rightarrow> (string \<rightharpoonup> cooldown_value) \<Rightarrow> string \<Rightarrow> int list
     \<Rightarrow> (js_error + bool) list \<times> (string \<rightharpoonup> cooldown_value)" where
  "checkSequence cfg cooldowns c [] = ([], cooldowns)"
| "checkSequence cfg cooldowns c (now # later) =
     (let (r, cooldowns1) = checkResponseFrequency cfg cooldowns c now;
          (rs, cooldowns2) = checkSequence cfg cooldowns1 c later
      in (r # rs, cooldowns2))"

subsection \<open>Commands and user settings\<close>

text \<open>
  The command name \<open>processCommand\<close> dispatches on: none when commands are disabled, the
  body is empty or not prefixed, or the name after the prefix is empty. A message with
  none falls through to generation.
\<close>

definition routedCommand :: "bot_config \<Rightarrow> 'a message_core_scheme \<Rightarrow> string option" where
  "routedCommand cfg m =
     (if \<not> commandsEnabled cfg \<or> body m = [] then None
      else case cmd_name (parseCommand (body m) (prefix cfg)) of
             None \<Rightarrow> None
           | Some name \<Rightarrow> if name = [] then None else Some name)"




subsection \<open>A small run\<close>

definition exampleInitial :: handler_state where
  "exampleInitial = \<lparr> memory = exampleMemory, userSettings = Map.empty, cooldownMap = Map.empty,
     sent = [], generationCalls = [] \<rparr>"

definition exampleEnv :: "int \<Rightarrow> event_env" where
  "exampleEnv t = \<lparr> now_filter = t, now_append = t + 1, now_frequency = t + 2, now_reply = t + 800,
     now_sent = t + 900, contactName = Some ''Alice'', generated = Inr ''Hi Alice!'', draw = 0 \<rparr>"






subsection \<open>Markup\<close>

text \<open>
  A response as a sequence of segments: plain text and the five kinds of markup the
  specification names. A code block is its text between two fences of three backticks,
  inline code its text between two backticks, bold its text between two pairs of stars,
  italics its text between two stars, a header one to six hash signs and the white
  space after them.
\<close>

datatype segment =
    Plain string | CodeBlock string | InlineCode string | Bold string | Italic string
  | Header nat string

fun written :: "segment \<Rightarrow> string" where
  "written (Plain t) = t"
| "written (CodeBlock t) = [CHR 0x60, CHR 0x60, CHR 0x60] @ t @ [CHR 0x60, CHR 0x60, CHR 0x60]"
| "written (InlineCode t) = [CHR 0x60] @ t @ [CHR 0x60]"
| "written (Bold t) = ''**'' @ t @ ''**''"
| "written (Italic t) = ''*'' @ t @ ''*''"
| "written (Header n ws) = replicate n CHR ''#'' @ ws"

text \<open>
  What is left of a segment once the markup is stripped: nothing of code and of the
  header marks, the inner text of bold and italics.
\<close>

fun stripped :: "segment \<Rightarrow> string" where
  "stripped (Plain t) = t"
| "stripped (CodeBlock t) = []"
| "stripped (InlineCode t) = []"
| "stripped (Bold t) = t"
| "stripped (Italic t) = t"
| "stripped (Header n ws) = []"

text \<open>
  Plain text has no backtick, no star and no hash sign. The text of a code block has no
  fence in it and no backtick at its end, the text of inline code no backtick; the text
  of bold and italics is plain and not empty.
\<close>

definition plainText :: "string \<Rightarrow> bool" where
  "plainText t = (CHR 0x60 \<notin> set t \<and> CHR ''*'' \<notin> set t \<and> CHR ''#'' \<notin> set t)"

fun wellFormed :: "segment \<Rightarrow> bool" where
  "wellFormed (Plain t) = plainText t"
| "wellFormed (CodeBlock t) =
     (\<not> jsIncludes t [CHR 0x60, CHR 0x60, CHR 0x60] \<and> (t = [] \<or> last t \<noteq> CHR 0x60))"
| "wellFormed (InlineCode t) = (CHR 0x60 \<notin> set t)"
| "wellFormed (Bold t) = (t \<noteq> [] \<and> plainText t)"
| "wellFormed (Italic t) = (t \<noteq> [] \<and> plainText t)"
| "wellFormed (Header n ws) = (1 \<le> n \<and> n \<le> 6 \<and> ws \<noteq> [] \<and> set ws \<subseteq> set specSpaces)"

text \<open>
  In a separated sequence every segment of markup is the last one or is followed by plain
  text that is not empty; after a header that text does not begin with white space.
\<close>

fun follows :: "segment \<Rightarrow> segment \<Rightarrow> bool" where
  "follows (Plain t) b = True"
| "follows (Header n ws) (Plain t) = (t \<noteq> [] \<and> hd t \<notin> set specSpaces)"
| "follows a (Plain t) = (t \<noteq> [])"
| "follows a b = False"

fun separated :: "segment list \<Rightarrow> bool" where
  "separated [] = True"
| "separated [a] = True"
| "separated (a # b # rest) = (follows a b \<and> separated (b # rest))"

text \<open>
  The stages of the stripping: after stage \<open>n\<close> the markup of the first \<open>n\<close> kinds is
  stripped and the other segments are as written. A segment is clear of the text after
  it when it is plain, the text is empty, or the text begins with no backtick and no
  star and, after a header, with no white space.
\<close>

fun kind :: "segment \<Rightarrow> nat" where
  "kind (Plain t) = 0"
| "kind (CodeBlock t) = 1"
| "kind (InlineCode t) = 2"
| "kind (Bold t) = 3"
| "kind (Italic t) = 4"
| "kind (Header n ws) = 5"

definition piece :: "nat \<Rightarrow> segment \<Rightarrow> string" where
  "piece n seg = (if kind seg \<le> n then stripped seg else written seg)"

definition partly :: "nat \<Rightarrow> segment list \<Rightarrow> string" where
  "partly n segs = concat (map (piece n) segs)"

definition clear :: "segment \<Rightarrow> string \<Rightarrow> bool" where
  "clear a rest =
     (kind a = 0 \<or> rest = []
      \<or> (hd rest \<noteq> CHR 0x60 \<and> hd rest \<noteq> CHR ''*'' \<and> (kind a = 5 \<longrightarrow> hd rest \<notin> set specSpaces)))"

definition exampleSegments :: "segment list" where
  "exampleSegments =
     [Plain ''See '', CodeBlock (''x = '' @ [CHR 0x60] @ ''1''), Plain '' and '', InlineCode ''ls'',
      Plain '', a '', Bold ''big'', Plain '' or '', Italic ''small'', Plain '' one: '',
      Header 2 '' '', Plain ''Title'']"

definition exampleBrief :: bot_config where
  "exampleBrief = exampleConfig\<lparr> maxResponseLength := 16 \<rparr>"

text \<open>The generation capability answers with a text in bold, or with a text too short.\<close>

definition exampleMarked :: "int \<Rightarrow> event_env" where
  "exampleMarked t = (exampleEnv t)\<lparr> generated := Inr '' **Hi** Alice! '' \<rparr>"

definition exampleTerse :: "int \<Rightarrow> event_env" where
  "exampleTerse t = (exampleEnv t)\<lparr> generated := Inr ''ok'', draw := 1 \<rparr>"

section \<open>Properties of the conversation memory\<close>

lemma jsSlice_recent: "0 < n \<Longrightarrow> jsSlice xs (- n) None = drop (length xs - nat n) xs"
  by (auto simp: jsSlice_def relativeIndex_def Let_def max_def nat_diff_distrib')

lemma jsSlice_older: "0 < n \<Longrightarrow> jsSlice xs 0 (Some (- n)) = take (length xs - nat n) xs"
  by (auto simp: jsSlice_def relativeIndex_def Let_def max_def nat_diff_distrib')

lemma addMessage_limits [simp]:
  "maxContextMessages (addMessage mem cid m now) = maxContextMessages mem"
  "summarizationThreshold (addMessage mem cid m now) = summarizationThreshold mem"
  by (simp_all add: addMessage_def summarizeConversation_def Let_def)

lemma addMessages_limits [simp]:
  "maxContextMessages (addMessages mem cid ms) = maxContextMessages mem"
  "summarizationThreshold (addMessages mem cid ms) = summarizationThreshold mem"
  by (induction ms arbitrary: mem) auto

lemma addMessages_snoc:
  "addMessages mem cid (ms @ [(m, now)]) = addMessage (addMessages mem cid ms) cid m now"
  by (induction ms arbitrary: mem) auto

lemma addMessage_below:
  assumes "int (length (retained mem cid)) + 1 < summarizationThreshold mem"
  shows "retained (addMessage mem cid m now) cid = retained mem cid @ [storedMessage m now]"
    and "summaries (addMessage mem cid m now) cid = summaries mem cid"
    and "conversations (addMessage mem cid m now) cid \<noteq> None"
  using assms by (auto simp: addMessage_def retained_def Let_def split: option.splits)

lemma addMessage_reached:
  assumes "summarizationThreshold mem \<le> int (length (retained mem cid)) + 1"
    and "0 < maxContextMessages mem"
  shows "retained (addMessage mem cid m now) cid =
           drop (length (retained mem cid) + 1 - nat (maxContextMessages mem))
             (retained mem cid @ [storedMessage m now])"
    and "\<exists>s. summaries (addMessage mem cid m now) cid = Some s \<and>
           messageCount s = length (retained mem cid) + 1 - nat (maxContextMessages mem)"
    and "conversations (addMessage mem cid m now) cid \<noteq> None"
  using assms
  by (auto simp: addMessage_def summarizeConversation_def retained_def Let_def
      jsSlice_recent jsSlice_older split: option.splits)

lemma retainedLength_le: "retainedLength M T N \<le> N"
proof -
  have "M + (N - T) mod (T - M) \<le> N" if "M < T" "T \<le> N"
  proof -
    have "(N - T) mod (T - M) \<le> N - T" by (rule mod_less_eq_dividend)
    with that show ?thesis by linarith
  qed
  then show ?thesis by (auto simp: retainedLength_def)
qed

lemma retainedLength_step:
  assumes "0 < M" "0 < T"
  shows "retainedLength M T (Suc N) =
     (if Suc (retainedLength M T N) < T then Suc (retainedLength M T N)
      else min (Suc (retainedLength M T N)) M)"
proof -
  consider "Suc N < T" | "Suc N = T" | "T \<le> N" "M < T" | "T \<le> N" "T \<le> M"
    by linarith
  then show ?thesis
  proof cases
    case 1 then show ?thesis by (simp add: retainedLength_def)
  next
    case 2 then show ?thesis using assms by (auto simp: retainedLength_def)
  next
    case 3
    let ?d = "T - M" and ?r = "(N - T) mod (T - M)"
    have d: "0 < ?d" using 3 by simp
    have r: "?r < ?d" using d by simp
    have suc: "Suc N - T = Suc (N - T)" using 3 by simp
    have step: "(Suc N - T) mod ?d = (if Suc ?r = ?d then 0 else Suc ?r)"
      unfolding suc by (rule mod_Suc)
    have len: "retainedLength M T N = M + ?r" "retainedLength M T (Suc N) = M + (Suc N - T) mod ?d"
      using 3 by (simp_all add: retainedLength_def)
    show ?thesis
    proof (cases "Suc ?r = ?d")
      case True
      then have "Suc (M + ?r) = T" using 3 by linarith
      then show ?thesis using True len step by simp
    next
      case False
      then have "Suc (M + ?r) < T" using r 3 by linarith
      then show ?thesis using False len step by simp
    qed
  next
    case 4 then show ?thesis using assms by (auto simp: retainedLength_def)
  qed
qed

lemma lastEvicted_step:
  assumes "0 < M" "0 < T" "T \<le> Suc N" "T \<le> Suc (retainedLength M T N)"
  shows "lastEvicted M T (Suc N) = Suc (retainedLength M T N) - M"
proof -
  consider "Suc N = T" | "T \<le> N" "M < T" | "T \<le> N" "T \<le> M"
    using assms by linarith
  then show ?thesis
  proof cases
    case 1 then show ?thesis using assms by (auto simp: retainedLength_def lastEvicted_def)
  next
    case 2
    have "(N - T) mod (T - M) < T - M" using 2 by simp
    then have "Suc (M + (N - T) mod (T - M)) \<le> T" using 2 by linarith
    moreover have "retainedLength M T N = M + (N - T) mod (T - M)"
      using 2 by (simp add: retainedLength_def)
    ultimately have "Suc (retainedLength M T N) = T" using assms by linarith
    then show ?thesis using 2 by (simp add: lastEvicted_def)
  next
    case 3 then show ?thesis using assms by (auto simp: retainedLength_def lastEvicted_def)
  qed
qed

lemma summary_kept:
  assumes "\<not> T \<le> Suc (retainedLength M T N)" "0 < M" "0 < T" "T \<le> N"
  shows "lastEvicted M T (Suc N) = lastEvicted M T N"
proof -
  have "M < T"
  proof (rule ccontr)
    assume "\<not> M < T"
    then have "retainedLength M T N = min N M" using assms by (simp add: retainedLength_def)
    then show False using assms \<open>\<not> M < T\<close> by (simp add: min_def split: if_splits)
  qed
  then show ?thesis by (simp add: lastEvicted_def)
qed

lemma length_storedAll [simp]: "length (storedAll ms) = length ms"
  by (simp add: storedAll_def)

lemma addMessages_invariant:
  assumes absent: "conversations mem cid = None" "summaries mem cid = None"
    and pos: "0 < maxContextMessages mem" "0 < summarizationThreshold mem"
  shows "retained (addMessages mem cid ms) cid =
           drop (length ms - retainedLength (nat (maxContextMessages mem))
                   (nat (summarizationThreshold mem)) (length ms)) (storedAll ms)
         \<and> (if length ms < nat (summarizationThreshold mem)
            then summaries (addMessages mem cid ms) cid = None
            else \<exists>s. summaries (addMessages mem cid ms) cid = Some s \<and>
                   messageCount s = lastEvicted (nat (maxContextMessages mem))
                     (nat (summarizationThreshold mem)) (length ms))"
proof (induction ms rule: rev_induct)
  case Nil
  show ?case using absent pos by (simp add: retained_def storedAll_def)
next
  case (snoc x ms)
  obtain m now where x: "x = (m, now)" by (cases x)
  let ?M = "nat (maxContextMessages mem)" and ?T = "nat (summarizationThreshold mem)"
  let ?N = "length ms"
  let ?mem = "addMessages mem cid ms"
  let ?l = "retainedLength ?M ?T ?N"
  have Mpos: "0 < ?M" and Tpos: "0 < ?T" using pos by simp_all
  have ret: "retained ?mem cid = drop (?N - ?l) (storedAll ms)" using snoc.IH by simp
  have le: "?l \<le> ?N" by (rule retainedLength_le)
  have len: "length (retained ?mem cid) = ?l" using ret le by simp
  have step: "retainedLength ?M ?T (Suc ?N) =
      (if Suc ?l < ?T then Suc ?l else min (Suc ?l) ?M)"
    by (rule retainedLength_step [OF Mpos Tpos])
  have all: "storedAll (ms @ [x]) = storedAll ms @ [storedMessage m now]"
    by (simp add: storedAll_def x)
  show ?case
  proof (cases "Suc ?l < ?T")
    case True
    then have below: "int (length (retained ?mem cid)) + 1 < summarizationThreshold ?mem"
      using len pos by simp
    have r1: "retained (addMessages mem cid (ms @ [x])) cid = retained ?mem cid @ [storedMessage m now]"
      unfolding x addMessages_snoc by (rule addMessage_below(1) [OF below])
    have s1: "summaries (addMessages mem cid (ms @ [x])) cid = summaries ?mem cid"
      unfolding x addMessages_snoc by (rule addMessage_below(2) [OF below])
    have suffix: "retained ?mem cid @ [storedMessage m now] =
        drop (Suc ?N - Suc ?l) (storedAll (ms @ [x]))"
      using ret le by (simp add: all)
    have new: "retainedLength ?M ?T (Suc ?N) = Suc ?l" using step True by simp
    show ?thesis
    proof (cases "Suc ?N < ?T")
      case short: True
      then have "summaries ?mem cid = None" using snoc.IH by simp
      then show ?thesis using short r1 s1 suffix new by simp
    next
      case long: False
      have TN: "?T \<le> ?N"
      proof (rule ccontr)
        assume "\<not> ?T \<le> ?N"
        then have "?l = ?N" by (simp add: retainedLength_def)
        then show False using True long by simp
      qed
      then obtain s where "summaries ?mem cid = Some s" "messageCount s = lastEvicted ?M ?T ?N"
        using snoc.IH by auto
      moreover have "lastEvicted ?M ?T (Suc ?N) = lastEvicted ?M ?T ?N"
        by (rule summary_kept [OF _ Mpos Tpos TN]) (use True in simp)
      ultimately show ?thesis using long r1 s1 suffix new by simp
    qed
  next
    case False
    then have reached: "summarizationThreshold ?mem \<le> int (length (retained ?mem cid)) + 1"
      using len pos by simp
    have mpos: "0 < maxContextMessages ?mem" using pos by simp
    have TN: "?T \<le> Suc ?N" using False le by linarith
    have r1: "retained (addMessages mem cid (ms @ [x])) cid =
        drop (Suc ?l - ?M) (retained ?mem cid @ [storedMessage m now])"
      unfolding x addMessages_snoc using addMessage_reached(1) [OF reached mpos, of m now] len
      by simp
    obtain s where s: "summaries (addMessages mem cid (ms @ [x])) cid = Some s"
        "messageCount s = Suc ?l - ?M"
      unfolding x addMessages_snoc using addMessage_reached(2) [OF reached mpos, of m now] len
      by auto
    have ev: "lastEvicted ?M ?T (Suc ?N) = Suc ?l - ?M"
      by (rule lastEvicted_step [OF Mpos Tpos TN]) (use False in simp)
    have "drop (Suc ?l - ?M) (retained ?mem cid @ [storedMessage m now]) =
        drop (Suc ?N - min (Suc ?l) ?M) (storedAll (ms @ [x]))"
    proof -
      have "retained ?mem cid @ [storedMessage m now] = drop (?N - ?l) (storedAll (ms @ [x]))"
        using ret le by (simp add: all)
      moreover have "Suc ?l - ?M + (?N - ?l) = Suc ?N - min (Suc ?l) ?M"
        using le by (simp add: min_def)
      ultimately show ?thesis by (simp add: add.commute)
    qed
    then have r2: "retained (addMessages mem cid (ms @ [x])) cid =
        drop (Suc ?N - min (Suc ?l) ?M) (storedAll (ms @ [x]))"
      using r1 by (rule trans [rotated])
    have new: "retainedLength ?M ?T (Suc ?N) = min (Suc ?l) ?M" using step False by simp
    have long: "\<not> Suc ?N < ?T" using TN by simp
    have "\<exists>s. summaries (addMessages mem cid (ms @ [x])) cid = Some s \<and>
        messageCount s = lastEvicted ?M ?T (Suc ?N)"
      using s ev by simp
    then show ?thesis unfolding length_append list.size using r2 new long
      by (simp del: addMessages.simps)
  qed
qed

lemma retainedLength_bound:
  assumes "0 < M" "T \<le> N"
  shows "retainedLength M T N \<le> max M (T - 1)"
proof (cases "M < T")
  case True
  then have "(N - T) mod (T - M) < T - M" by simp
  then have "M + (N - T) mod (T - M) \<le> T - 1" using True by linarith
  then show ?thesis using True assms by (simp add: retainedLength_def)
next
  case False
  then show ?thesis using assms by (simp add: retainedLength_def)
qed

subsection \<open>Reading the context\<close>

text \<open>
  C10. For a conversation id that is not in the in-memory cache,
  \<open>getConversationContext\<close> returns an empty message list and a \<open>null\<close> summary, with
  no \<open>totalMessages\<close> field; it creates no conversation and leaves the memory as it
  was.
\<close>

theorem getConversationContext_absent:
  assumes "conversations mem cid = None"
  shows "getConversationContext mem cid maxMessages =
           (\<lparr> ctx_messages = [], ctx_summary = Null, totalMessages = None \<rparr>, mem)"
  using assms by (simp add: getConversationContext_def)

theorem getConversationContext_absent_witness:
  "conversations exampleMemory ''4915112345'' = None \<and>
   getConversationContext exampleMemory ''4915112345'' (Some 3) =
     (\<lparr> ctx_messages = [], ctx_summary = Null, totalMessages = None \<rparr>, exampleMemory)"
proof -
  have h: "conversations exampleMemory ''4915112345'' = None" by (simp add: exampleMemory_def)
  show ?thesis using h getConversationContext_absent [OF h, of "Some 3"] by simp
qed

text \<open>
  C7. Two calls of \<open>getConversationContext\<close> for the same conversation, with no append
  between them, return the same result (messages, summary and \<open>totalMessages\<close>), and
  the memory after the call is the memory before it.
\<close>

theorem getConversationContext_idempotent:
  "getConversationContext (snd (getConversationContext mem cid maxMessages)) cid maxMessages
     = getConversationContext mem cid maxMessages
   \<and> snd (getConversationContext mem cid maxMessages) = mem"
  by (simp add: getConversationContext_def Let_def split: option.splits)

text \<open>
  C1, as stated, asks \<open>totalMessages\<close> to count every message the conversation ever
  received. After five appends with a threshold of five and a context limit of two,
  three messages have been compacted into the summary and \<open>totalMessages\<close> is \<open>2\<close>, not
  \<open>5\<close>.
\<close>

theorem totalMessages_counterexample:
  "totalMessages (fst (getConversationContext
      (addMessages exampleMemory ''c'' (replicate 5 (exampleMessage ''hello there'', 1700000000000))) ''c'' None))
   \<noteq> Some 5"
  by code_simp

text \<open>
  C1, amended. For a conversation in memory and a positive limit (the argument
  \<open>maxMessages\<close>, or \<open>maxContextMessages\<close> when the argument is \<open>null\<close> or \<open>0\<close>),
  \<open>getConversationContext\<close> returns the last \<open>limit\<close> retained messages, the current
  summary when there is one, and as \<open>totalMessages\<close> the number of retained messages
  (messages compacted into the summary are not counted); the memory is unchanged.
\<close>

theorem getConversationContext_present:
  assumes "conversations mem cid = Some conv"
    and "limit = (case maxMessages of None \<Rightarrow> maxContextMessages mem
                  | Some n \<Rightarrow> if n = 0 then maxContextMessages mem else n)"
    and "0 < limit"
  shows "getConversationContext mem cid maxMessages =
           (\<lparr> ctx_messages = drop (length (messages conv) - nat limit) (messages conv),
              ctx_summary = (case summaries mem cid of None \<Rightarrow> Undefined | Some s \<Rightarrow> Defined s),
              totalMessages = Some (length (messages conv)) \<rparr>, mem)"
  using assms by (simp add: getConversationContext_def Let_def jsSlice_recent)

theorem getConversationContext_present_witness:
  "ctx_messages (fst (getConversationContext exampleSummarized ''c'' (Some 1)))
     = [storedMessage (exampleMessage ''hello there'') 1700000000000]
   \<and> totalMessages (fst (getConversationContext exampleSummarized ''c'' (Some 1))) = Some 2
   \<and> snd (getConversationContext exampleSummarized ''c'' (Some 1)) = exampleSummarized"
proof -
  have conv: "conversations exampleSummarized ''c'' =
      Some \<lparr> conv_id = ''c'',
             messages = [storedMessage (exampleMessage ''hello there'') 1700000000000,
                         storedMessage (exampleMessage ''hello there'') 1700000000000],
             createdAt = 1700000000000, updatedAt = 1700000000000 \<rparr>"
    by code_simp
  show ?thesis
    using getConversationContext_present [OF conv, of 1 "Some 1"] by simp
qed

subsection \<open>Appending and summarizing\<close>

text \<open>
  C2, as stated, bounds the retained list by \<open>maxContextMessages\<close> after every append
  from the threshold on. With a threshold of five and a context limit of two, the fifth
  append triggers a summarization and leaves two messages; the sixth append does not,
  and leaves three.
\<close>

theorem retained_bound_counterexample:
  "\<not> int (length (retained (addMessages exampleMemory ''c''
        (replicate 6 (exampleMessage ''hello there'', 1700000000000))) ''c''))
      \<le> maxContextMessages exampleMemory"
  by code_simp

text \<open>
  C2, amended. For a conversation not yet in memory, limits \<open>M = maxContextMessages\<close>
  and \<open>T = summarizationThreshold\<close> both at least one, and \<open>N \<ge> T\<close> appended messages:
  the retained list is the last \<open>retainedLength M T N\<close> messages appended, in order;
  its length is at most \<open>max M (T - 1)\<close> (it is cut to \<open>M\<close> by the append that reaches
  the threshold and grows again until the next one); and one summary exists for the
  conversation, whose \<open>messageCount\<close> is the number of messages the most recent
  summarization removed: \<open>T - M\<close> when \<open>M < T\<close>, otherwise \<open>1\<close> if \<open>N > M\<close> and \<open>0\<close> if not.
\<close>

theorem addMessages_summarized:
  assumes "conversations mem cid = None" and "summaries mem cid = None"
    and "0 < maxContextMessages mem" and "0 < summarizationThreshold mem"
    and "summarizationThreshold mem \<le> int (length ms)"
    and "M = nat (maxContextMessages mem)" and "T = nat (summarizationThreshold mem)"
  shows "retained (addMessages mem cid ms) cid
           = drop (length ms - retainedLength M T (length ms)) (storedAll ms)
         \<and> length (retained (addMessages mem cid ms) cid) = retainedLength M T (length ms)
         \<and> length (retained (addMessages mem cid ms) cid) \<le> max M (T - 1)
         \<and> (\<exists>s. summaries (addMessages mem cid ms) cid = Some s
                \<and> messageCount s = lastEvicted M T (length ms))"
proof -
  note inv = addMessages_invariant [OF assms(1-4), of ms, folded assms(6,7)]
  have TN: "T \<le> length ms" using assms by simp
  have le: "retainedLength M T (length ms) \<le> length ms" by (rule retainedLength_le)
  have Mpos: "0 < M" using assms by simp
  have len: "length (retained (addMessages mem cid ms) cid) = retainedLength M T (length ms)"
    using inv le by simp
  show ?thesis using inv TN len retainedLength_bound [OF Mpos TN] by simp
qed

theorem addMessages_summarized_witness:
  "length (retained (addMessages exampleMemory ''c''
        (replicate 6 (exampleMessage ''hello there'', 1700000000000))) ''c'') = 3
   \<and> (\<exists>s. summaries (addMessages exampleMemory ''c''
        (replicate 6 (exampleMessage ''hello there'', 1700000000000))) ''c'' = Some s \<and> messageCount s = 3)"
  using addMessages_summarized [of exampleMemory "''c''" "replicate 6 (exampleMessage ''hello there'', 1700000000000)" 2 5]
  by (simp add: exampleMemory_def retainedLength_def lastEvicted_def)

subsection \<open>Key topics of a summary\<close>

text \<open>The words \<open>extractKeyTopics\<close> counts are the words of the specification.\<close>

lemma all_chars: "list_all P (Enum.enum :: char list) \<Longrightarrow> P c"
  by (simp add: list_all_iff enum_UNIV)

lemma isWhitespace_spec: "isWhitespace c = (c \<in> set specSpaces)"
proof -
  have "list_all (\<lambda>c. isWhitespace c = (c \<in> set specSpaces)) Enum.enum" by code_simp
  then show ?thesis by (rule all_chars)
qed

lemma isWordChar_spec: "isWordChar c = (c \<in> set specWordChars)"
proof -
  have "list_all (\<lambda>c. isWordChar c = (c \<in> set specWordChars)) Enum.enum" by code_simp
  then show ?thesis by (rule all_chars)
qed

lemma lowerChar_spec:
  "specLower c = lowerChar c
   \<or> (\<not> isWordChar (lowerChar c) \<and> \<not> isWhitespace (lowerChar c)
      \<and> \<not> isWordChar (specLower c) \<and> \<not> isWhitespace (specLower c))"
proof -
  have "list_all (\<lambda>c. specLower c = lowerChar c
   \<or> (\<not> isWordChar (lowerChar c) \<and> \<not> isWhitespace (lowerChar c)
      \<and> \<not> isWordChar (specLower c) \<and> \<not> isWhitespace (specLower c))) Enum.enum" by code_simp
  then show ?thesis by (rule all_chars)
qed

lemma kept_spec:
  "(if isWordChar (lowerChar c) \<or> isWhitespace (lowerChar c) then [lowerChar c] else [])
     = (if specLower c \<in> set specWordChars \<or> specLower c \<in> set specSpaces then [specLower c] else [])"
  unfolding isWordChar_spec [symmetric] isWhitespace_spec [symmetric]
  using lowerChar_spec [of c] by auto

lemma filter_map_concat: "filter P (map f xs) = concat (map (\<lambda>x. if P (f x) then [f x] else []) xs)"
  by (induction xs) auto

lemma stripped_spec:
  "filter (\<lambda>c. isWordChar c \<or> isWhitespace c) (toLowerCase b)
     = filter (\<lambda>c. c \<in> set specWordChars \<or> c \<in> set specSpaces) (map specLower b)"
  unfolding toLowerCase_def filter_map_concat by (simp only: kept_spec)

lemma specTokens_Nil: "specTokens [] = []"
  by (simp add: specTokens.simps)

lemma specTokens_space: "c \<in> set specSpaces \<Longrightarrow> specTokens (c # cs) = specTokens cs"
  by (subst specTokens.simps, subst (2) specTokens.simps) simp

lemma specTokens_word:
  "c \<notin> set specSpaces \<Longrightarrow>
     specTokens (c # cs) = (c # takeWhile (\<lambda>x. x \<notin> set specSpaces) cs)
                            # specTokens (dropWhile (\<lambda>x. x \<notin> set specSpaces) cs)"
  by (subst specTokens.simps) simp

lemma specTokens_run:
  "filter (\<lambda>w. w \<noteq> []) [takeWhile (\<lambda>x. x \<notin> set specSpaces) s]
     @ specTokens (dropWhile (\<lambda>x. x \<notin> set specSpaces) s) = specTokens s"
  by (cases s) (auto simp: specTokens_Nil specTokens_word)

lemma splitRuns_spec:
  "(inRun \<longrightarrow> cur = []) \<Longrightarrow>
     filter (\<lambda>w. w \<noteq> []) (splitRuns inRun cur s)
       = filter (\<lambda>w. w \<noteq> []) [rev cur @ takeWhile (\<lambda>x. x \<notin> set specSpaces) s]
         @ specTokens (dropWhile (\<lambda>x. x \<notin> set specSpaces) s)"
proof (induction s arbitrary: inRun cur)
  case Nil
  then show ?case by (simp add: specTokens_Nil)
next
  case (Cons c cs)
  show ?case
  proof (cases "c \<in> set specSpaces")
    case True
    have "filter (\<lambda>w. w \<noteq> []) (splitRuns True [] cs) = specTokens cs"
      using Cons.IH [of True "[]"] specTokens_run [of cs] by simp
    then show ?thesis using True Cons.prems
      by (auto simp: isWhitespace_spec specTokens_space)
  next
    case False
    then show ?thesis using Cons.IH [of False "c # cur"] by (simp add: isWhitespace_spec)
  qed
qed

lemma splitWhitespace_spec: "filter (\<lambda>w. w \<noteq> []) (splitWhitespace s) = specTokens s"
  using splitRuns_spec [of False "[]" s] specTokens_run [of s] by (simp add: splitWhitespace_def)

lemma bodyWords_spec: "bodyWords b = specBodyWords b"
proof -
  have "filter (\<lambda>w. length w > 2 \<and> w \<notin> set stopWords) xs
      = filter (\<lambda>w. \<not> length w \<le> 2 \<and> w \<notin> set stopWords) (filter (\<lambda>w. w \<noteq> []) xs)" for xs
    by (induction xs) auto
  then show ?thesis
    by (simp only: bodyWords_def specBodyWords_def stripped_spec splitWhitespace_spec)
qed

lemma messageWords_spec: "messageWords ms = specWords ms"
proof -
  have "specBodyWords [] = []" by code_simp
  then have "(if body m \<noteq> [] then bodyWords (body m) else []) = specBodyWords (body m)" for m :: "'a message_core_scheme"
    by (simp add: bodyWords_spec)
  then show ?thesis by (simp add: messageWords_def specWords_def)
qed

lemma firstOccurrences_snoc:
  "firstOccurrences (us @ [w]) = (if w \<in> set us then firstOccurrences us else firstOccurrences us @ [w])"
  by (simp add: firstOccurrences_def)

lemma distinct_firstOccurrences: "distinct (firstOccurrences ws)"
  by (simp add: firstOccurrences_def)

lemma set_firstOccurrences: "set (firstOccurrences ws) = set ws"
  by (simp add: firstOccurrences_def)

lemma increment_map:
  "distinct ks \<Longrightarrow> increment (map (\<lambda>k. (k, f k)) ks) w =
     (if w \<in> set ks then map (\<lambda>k. (k, if k = w then f k + 1 else f k)) ks
      else map (\<lambda>k. (k, f k)) ks @ [(w, 1)])"
  by (induction ks) auto

lemma increment_tally: "increment (tally us) w = tally (us @ [w])"
  unfolding tally_def
  by (auto simp: increment_map distinct_firstOccurrences set_firstOccurrences firstOccurrences_snoc)

lemma countWords_tally:
  "''__proto__'' \<notin> set ws \<Longrightarrow> countWords (tally us) ws = tally (us @ ws)"
proof (induction ws arbitrary: us)
  case Nil
  then show ?case by simp
next
  case (Cons w ws)
  then have "countWords (tally us) (w # ws) = countWords (tally (us @ [w])) ws"
    by (auto simp: increment_tally)
  also have "\<dots> = tally ((us @ [w]) @ ws)" using Cons by simp
  finally show ?case by simp
qed

lemma insort_key_map:
  "insort_key f (g x) (map g xs) = map g (insort_key (\<lambda>y. f (g y)) x xs)"
  by (induction xs) auto

lemma sort_key_map: "sort_key f (map g xs) = map g (sort_key (\<lambda>y. f (g y)) xs)"
  by (induction xs) (auto simp: insort_key_map)

lemma objectEntries_map:
  "objectEntries (map (\<lambda>w. (w, c w)) ks) = map (\<lambda>w. (w, c w)) (keyOrder ks)"
  by (simp add: objectEntries_def keyOrder_def filter_map comp_def sort_key_map)

lemma jsSlice_first: "0 \<le> n \<Longrightarrow> jsSlice xs 0 (Some n) = take (nat n) xs"
  by (auto simp: jsSlice_def relativeIndex_def Let_def min_def)

lemma extractKeyTopics_ranked:
  assumes "''constructor'' \<notin> set (messageWords ms)" "''__proto__'' \<notin> set (messageWords ms)"
  shows "extractKeyTopics ms =
     Some (rankedTopics (messageWords ms) (keyOrder (firstOccurrences (messageWords ms))))"
proof -
  let ?ws = "messageWords ms"
  have count: "countWords [] ?ws = tally ?ws"
    using countWords_tally [OF assms(2), of "[]"] by (simp add: tally_def firstOccurrences_def)
  have "set (keyOrder (firstOccurrences ?ws)) = set ?ws"
    by (auto simp: keyOrder_def set_firstOccurrences)
  then have "''constructor'' \<notin> set (keyOrder (firstOccurrences ?ws))" using assms(1) by simp
  then have "sortEntries (objectEntries (tally ?ws))
      = Some (sort_key (\<lambda>(k, n). - int n) (objectEntries (tally ?ws)))"
    by (simp add: sortEntries_def tally_def objectEntries_map comp_def)
  then show ?thesis
    by (simp add: extractKeyTopics_def count tally_def objectEntries_map sort_key_map jsSlice_first
        rankedTopics_def take_map comp_def)
qed

text \<open>
  With the word \<open>constructor\<close> and one other word, every comparison of the sort is
  \<open>0\<close> and the topics come in the order of the keys.
\<close>

lemma extractKeyTopics_constructor:
  "extractKeyTopics [exampleMessage ''constructor hello hello''] = Some [''constructor'', ''hello'']"
  by code_simp

lemma keyOrder_plain:
  assumes "list_all (\<lambda>w. \<not> isArrayIndex w) ks"
  shows "keyOrder ks = ks"
proof -
  have "filter isArrayIndex ks = []" using assms by (simp add: filter_empty_conv list_all_iff)
  moreover have "filter (\<lambda>k. \<not> isArrayIndex k) ks = ks"
    using assms by (simp add: filter_id_conv list_all_iff)
  ultimately show ?thesis by (simp add: keyOrder_def)
qed

lemma summarizeConversation_keyTopics:
  assumes "conversations mem cid = Some conv"
    and "summarizationThreshold mem \<le> int (length (messages conv))"
    and "0 < maxContextMessages mem"
  shows "\<exists>s. summaries (summarizeConversation mem cid now) cid = Some s \<and>
           keyTopics s = extractKeyTopics
             (take (length (messages conv) - nat (maxContextMessages mem)) (messages conv))"
  using assms by (simp add: summarizeConversation_def Let_def jsSlice_older)

text \<open>
  C8, as stated, breaks ties of frequency by first occurrence. For the body
  \<open>hello 100\<close> both words occur once and \<open>hello\<close> comes first, but the counting object
  enumerates the key \<open>100\<close>, an array index, before \<open>hello\<close>, and the topics are
  \<open>100, hello\<close>.
\<close>

theorem keyTopics_tie_counterexample:
  "extractKeyTopics [exampleMessage ''hello 100'']
     \<noteq> Some (specKeyTopics [exampleMessage ''hello 100''])"
  by code_simp

text \<open>
  C8, amended. When a conversation is summarized (context limit at least one), the
  key topics of its summary are computed from the summarized messages only, the
  messages before the last \<open>maxContextMessages\<close>. With \<open>ws\<close> the words of these
  messages as the specification words them (each body in lower case, punctuation
  stripped, tokenized at white space, tokens of at most two characters and stop words
  dropped), the topics are the ten most frequent words, hence at most ten, ties broken
  by the order in which the counting object enumerates its keys: array indices first
  in ascending numeric order, then the other words by first occurrence. When no word
  is an array index this is the first-occurrence order of the specification. The words
  \<open>constructor\<close> and \<open>__proto__\<close> are left aside.
\<close>

theorem summary_keyTopics:
  assumes "conversations mem cid = Some conv"
    and "summarizationThreshold mem \<le> int (length (messages conv))"
    and "0 < maxContextMessages mem"
    and "older = take (length (messages conv) - nat (maxContextMessages mem)) (messages conv)"
    and "ws = concat (map (\<lambda>m.
           filter (\<lambda>w. \<not> length w \<le> 2 \<and> w \<notin> set stopWords)
             (specTokens (filter (\<lambda>c. c \<in> set specWordChars \<or> c \<in> set specSpaces)
                (map specLower (body m))))) older)"
    and "''constructor'' \<notin> set ws" and "''__proto__'' \<notin> set ws"
  shows "\<exists>s. summaries (summarizeConversation mem cid now) cid = Some s
           \<and> keyTopics s = Some (rankedTopics ws (keyOrder (firstOccurrences ws)))
           \<and> length (rankedTopics ws (keyOrder (firstOccurrences ws))) \<le> 10
           \<and> (list_all (\<lambda>w. \<not> isArrayIndex w) ws
                \<longrightarrow> keyTopics s = Some (rankedTopics ws (firstOccurrences ws)))"
proof -
  obtain s where s: "summaries (summarizeConversation mem cid now) cid = Some s"
      "keyTopics s = extractKeyTopics older"
    using summarizeConversation_keyTopics [OF assms(1-3)] assms(4) by auto
  have ws: "messageWords older = ws"
    by (simp add: messageWords_spec specWords_def specBodyWords_def assms(5))
  have ranked: "extractKeyTopics older = Some (rankedTopics ws (keyOrder (firstOccurrences ws)))"
    using extractKeyTopics_ranked [of older] assms(6,7) by (simp add: ws)
  have plain: "keyOrder (firstOccurrences ws) = firstOccurrences ws"
    if "list_all (\<lambda>w. \<not> isArrayIndex w) ws"
    using that by (intro keyOrder_plain) (simp add: list_all_iff set_firstOccurrences)
  show ?thesis
    using s ranked plain by (auto simp: rankedTopics_def)
qed

theorem summary_keyTopics_witness:
  "\<exists>s. summaries (summarizeConversation exampleFull ''c'' 1700000009000) ''c'' = Some s
      \<and> keyTopics s = Some [''hello'', ''world'', ''again'', ''weather'', ''nice'']
      \<and> keyTopics s = Some (specKeyTopics [exampleStored ''Hello world'',
            exampleStored ''hello again, World! Go on'',
            exampleStored ''Hi - the WEATHER is so nice, OK?''])"
proof -
  let ?older = "[exampleStored ''Hello world'', exampleStored ''hello again, World! Go on'',
                 exampleStored ''Hi - the WEATHER is so nice, OK?'']"
  let ?conv = "\<lparr> conv_id = ''c'',
                 messages = [exampleStored ''Hello world'',
                             exampleStored ''hello again, World! Go on'',
                             exampleStored ''Hi - the WEATHER is so nice, OK?'',
                             exampleStored ''ok'', exampleStored ''bye for now''],
                 createdAt = 1700000000000, updatedAt = 1700000000000 \<rparr>"
  let ?ws = "[''hello'', ''world'', ''hello'', ''again'', ''world'', ''weather'', ''nice'']"
  have conv: "conversations exampleFull ''c'' = Some ?conv" by (simp add: exampleFull_def)
  have thr: "summarizationThreshold exampleFull \<le> int (length (messages ?conv))"
    by (simp add: exampleFull_def exampleMemory_def)
  have lim: "0 < maxContextMessages exampleFull" by (simp add: exampleFull_def exampleMemory_def)
  have older: "?older = take (length (messages ?conv) - nat (maxContextMessages exampleFull)) (messages ?conv)"
    by (simp add: exampleFull_def exampleMemory_def)
  have ws: "?ws = concat (map (\<lambda>m.
           filter (\<lambda>w. \<not> length w \<le> 2 \<and> w \<notin> set stopWords)
             (specTokens (filter (\<lambda>c. c \<in> set specWordChars \<or> c \<in> set specSpaces)
                (map specLower (body m))))) ?older)"
    by code_simp
  have ranked: "rankedTopics ?ws (keyOrder (firstOccurrences ?ws))
      = [''hello'', ''world'', ''again'', ''weather'', ''nice'']"
    by code_simp
  have spec: "specKeyTopics ?older = rankedTopics ?ws (firstOccurrences ?ws)"
    unfolding specKeyTopics_def specWords_def specBodyWords_def ws [symmetric] by (rule refl)
  have plain: "list_all (\<lambda>w. \<not> isArrayIndex w) ?ws"
    by code_simp
  have none: "''constructor'' \<notin> set ?ws" "''__proto__'' \<notin> set ?ws"
    by simp_all
  from summary_keyTopics [OF conv thr lim older ws none, of 1700000009000]
  obtain s where s: "summaries (summarizeConversation exampleFull ''c'' 1700000009000) ''c'' = Some s"
    and topics: "keyTopics s = Some (rankedTopics ?ws (keyOrder (firstOccurrences ?ws)))"
    and first: "list_all (\<lambda>w. \<not> isArrayIndex w) ?ws
      \<longrightarrow> keyTopics s = Some (rankedTopics ?ws (firstOccurrences ?ws))"
    by blast
  from first plain have "keyTopics s = Some (rankedTopics ?ws (firstOccurrences ?ws))" by (rule mp)
  with s topics show ?thesis unfolding ranked spec by blast
qed

subsection \<open>Response frequency\<close>

lemma checkResponseFrequency_step:
  assumes "recorded cooldowns c = Some ts"
  shows "checkResponseFrequency cfg cooldowns c now =
     (if int (length (recentAt now ts)) < responseFrequencyLimit cfg
      then (Inr True, cooldowns(''frequency_'' @ c \<mapsto> Timestamps (recentAt now ts @ [now])))
      else (Inr False, cooldowns(''frequency_'' @ c \<mapsto> Timestamps ts)))"
  using assms
  by (auto simp: checkResponseFrequency_def recorded_def recentAt_def Let_def fun_upd_idem
      split: option.splits cooldown_value.splits)

lemma recorded_after:
  "recorded (cooldowns(''frequency_'' @ c \<mapsto> Timestamps ts)) c = Some ts"
  by (simp add: recorded_def)

lemma checkSequence_allowed:
  assumes "recorded cooldowns c = Some ts"
    and "int (length (recentAt now ts)) < responseFrequencyLimit cfg"
  shows "checkSequence cfg cooldowns c (now # later) =
     (let (rs, cooldowns2) = checkSequence cfg
            (cooldowns(''frequency_'' @ c \<mapsto> Timestamps (recentAt now ts @ [now]))) c later
      in (Inr True # rs, cooldowns2))"
  using assms by (simp add: checkResponseFrequency_step)

lemma checkSequence_refused:
  assumes "recorded cooldowns c = Some ts"
    and "\<not> int (length (recentAt now ts)) < responseFrequencyLimit cfg"
  shows "checkSequence cfg cooldowns c (now # later) =
     (let (rs, cooldowns2) = checkSequence cfg
            (cooldowns(''frequency_'' @ c \<mapsto> Timestamps ts)) c later
      in (Inr False # rs, cooldowns2))"
  using assms by (simp add: checkResponseFrequency_step)

lemma fourth_call_refused:
  assumes start: "recorded cooldowns c = Some []"
    and limit: "responseFrequencyLimit cfg = 3"
    and order: "t1 \<le> t2" "t2 \<le> t3" "t3 \<le> t4" "t4 < t1 + 60000" "t1 + 60000 \<le> t5"
  shows "fst (checkSequence cfg cooldowns c [t1, t2, t3, t4, t5])
           = [Inr True, Inr True, Inr True, Inr False, Inr True]"
    and "recorded (snd (checkSequence cfg cooldowns c [t1, t2, t3, t4])) c = Some [t1, t2, t3]"
proof -
  let ?k = "''frequency_'' @ c"
  let ?c1 = "cooldowns(?k \<mapsto> Timestamps [t1])"
  let ?c2 = "cooldowns(?k \<mapsto> Timestamps [t1, t2])"
  let ?c3 = "cooldowns(?k \<mapsto> Timestamps [t1, t2, t3])"
  have s1: "checkSequence cfg cooldowns c (t1 # later) =
      (let (rs, c') = checkSequence cfg ?c1 c later in (Inr True # rs, c'))" for later
    using checkSequence_allowed [OF start, of t1 cfg later] limit by (simp add: recentAt_def)
  have s2: "checkSequence cfg ?c1 c (t2 # later) =
      (let (rs, c') = checkSequence cfg ?c2 c later in (Inr True # rs, c'))" for later
    using checkSequence_allowed [OF recorded_after, of t2 "[t1]" cfg cooldowns c later] limit order
    by (simp add: recentAt_def)
  have s3: "checkSequence cfg ?c2 c (t3 # later) =
      (let (rs, c') = checkSequence cfg ?c3 c later in (Inr True # rs, c'))" for later
    using checkSequence_allowed [OF recorded_after, of t3 "[t1, t2]" cfg cooldowns c later] limit order
    by (simp add: recentAt_def)
  have s4: "checkSequence cfg ?c3 c (t4 # later) =
      (let (rs, c') = checkSequence cfg ?c3 c later in (Inr False # rs, c'))" for later
    using checkSequence_refused [OF recorded_after, of t4 "[t1, t2, t3]" cfg cooldowns c later] limit order
    by (simp add: recentAt_def)
  have "length (recentAt t5 [t1, t2, t3]) \<le> 2" using order by (simp add: recentAt_def)
  then have s5: "fst (checkSequence cfg ?c3 c [t5]) = [Inr True]"
    using checkSequence_allowed [OF recorded_after, of t5 "[t1, t2, t3]" cfg cooldowns c "[]"] limit
    by (simp add: split_beta)
  show "fst (checkSequence cfg cooldowns c [t1, t2, t3, t4, t5])
           = [Inr True, Inr True, Inr True, Inr False, Inr True]"
    unfolding s1 s2 s3 s4 using s5 by (simp add: split_beta)
  show "recorded (snd (checkSequence cfg cooldowns c [t1, t2, t3, t4])) c = Some [t1, t2, t3]"
    unfolding s1 s2 s3 s4 by (simp add: recorded_def)
qed

text \<open>
  C3, as stated, counts the timestamps in the closed interval from \<open>now - windowMs\<close> to
  \<open>now\<close>. With a limit of three and three responses recorded, the oldest exactly
  60000 ms before \<open>now\<close>, the closed interval holds three timestamps, which is not below
  the limit, and yet the check answers true: the code keeps only timestamps later than
  \<open>now - 60000\<close>.
\<close>

theorem closed_window_counterexample:
  "\<not> int (length (withinClosedWindow 1700000060000 60000
          [1700000000000, 1700000005000, 1700000010000])) < responseFrequencyLimit exampleConfig
   \<and> fst (checkResponseFrequency exampleConfig
            [''frequency_4915112345@c.us'' \<mapsto>
               Timestamps [1700000000000, 1700000005000, 1700000010000]]
            ''4915112345@c.us'' 1700000060000) = Inr True"
  by (simp add: withinClosedWindow_def exampleConfig_def checkResponseFrequency_def)

text \<open>
  C3, amended. For every contact whose entry is absent or an array \<open>ts\<close>, the check
  counts the recorded timestamps later than \<open>now - 60000\<close> (a timestamp exactly 60000 ms
  old is outside the window). If that count is below the configured limit it stores
  those timestamps followed by \<open>now\<close> and returns true; otherwise it returns false and
  records nothing. In particular, with limit 3 and no timestamp recorded, of four calls
  within less than 60000 ms the first three return true and the fourth returns false
  without recording, and a call at least 60000 ms after the first returns true again.
\<close>

theorem checkResponseFrequency_window:
  assumes "recorded cooldowns c = Some ts"
  shows "checkResponseFrequency cfg cooldowns c now =
           (if int (length (recentAt now ts)) < responseFrequencyLimit cfg
            then (Inr True, cooldowns(''frequency_'' @ c \<mapsto> Timestamps (recentAt now ts @ [now])))
            else (Inr False, cooldowns(''frequency_'' @ c \<mapsto> Timestamps ts)))
         \<and> (ts = [] \<and> responseFrequencyLimit cfg = 3
              \<and> t1 \<le> t2 \<and> t2 \<le> t3 \<and> t3 \<le> t4 \<and> t4 < t1 + 60000 \<and> t1 + 60000 \<le> t5
            \<longrightarrow> fst (checkSequence cfg cooldowns c [t1, t2, t3, t4, t5])
                  = [Inr True, Inr True, Inr True, Inr False, Inr True]
                \<and> recorded (snd (checkSequence cfg cooldowns c [t1, t2, t3, t4])) c
                  = Some [t1, t2, t3])"
  using checkResponseFrequency_step [OF assms] fourth_call_refused [of cooldowns c cfg t1 t2 t3 t4 t5]
    assms
  by blast

theorem checkResponseFrequency_window_witness:
  "fst (checkResponseFrequency exampleConfig Map.empty ''4915112345@c.us'' 1700000000000) = Inr True
   \<and> fst (checkSequence exampleConfig Map.empty ''4915112345@c.us''
        [1700000000000, 1700000010000, 1700000020000, 1700000030000, 1700000060000])
      = [Inr True, Inr True, Inr True, Inr False, Inr True]
   \<and> recorded (snd (checkSequence exampleConfig Map.empty ''4915112345@c.us''
        [1700000000000, 1700000010000, 1700000020000, 1700000030000])) ''4915112345@c.us''
      = Some [1700000000000, 1700000010000, 1700000020000]"
proof -
  have h: "recorded Map.empty ''4915112345@c.us'' = Some []" by (simp add: recorded_def)
  have lim: "responseFrequencyLimit exampleConfig = 3" by (simp add: exampleConfig_def)
  note w = checkResponseFrequency_window [OF h, of exampleConfig 1700000000000
        1700000000000 1700000010000 1700000020000 1700000030000 1700000060000]
  have first: "fst (checkResponseFrequency exampleConfig Map.empty ''4915112345@c.us'' 1700000000000)
      = Inr True"
    using w [THEN conjunct1] lim by (simp add: recentAt_def)
  have times: "([]::int list) = [] \<and> responseFrequencyLimit exampleConfig = 3
      \<and> (1700000000000::int) \<le> 1700000010000 \<and> (1700000010000::int) \<le> 1700000020000
      \<and> (1700000020000::int) \<le> 1700000030000 \<and> (1700000030000::int) < 1700000000000 + 60000
      \<and> (1700000000000::int) + 60000 \<le> 1700000060000"
    using lim by simp
  from w [THEN conjunct2] times
  have "fst (checkSequence exampleConfig Map.empty ''4915112345@c.us''
        [1700000000000, 1700000010000, 1700000020000, 1700000030000, 1700000060000])
      = [Inr True, Inr True, Inr True, Inr False, Inr True]
    \<and> recorded (snd (checkSequence exampleConfig Map.empty ''4915112345@c.us''
        [1700000000000, 1700000010000, 1700000020000, 1700000030000])) ''4915112345@c.us''
      = Some [1700000000000, 1700000010000, 1700000020000]"
    by (rule mp)
  with first show ?thesis by blast
qed

section \<open>Properties of the command handler\<close>

text \<open>
  C9, as stated, holds for every prefixed message with an unrecognized name. When
  commands are disabled in the configuration, \<open>processCommand\<close> returns \<open>null\<close> for the
  message \<open>/weather\<close>, whose name \<open>weather\<close> is not an available command; and with
  commands enabled it returns \<open>null\<close> for the bare prefix \<open>/\<close>, whose name is empty.
\<close>

theorem unknown_command_counterexample:
  "startsWith ''/weather'' (prefix exampleDisabled)
   \<and> cmd_name (parseCommand ''/weather'' (prefix exampleDisabled)) = Some ''weather''
   \<and> ''weather'' \<notin> set (availableCommands exampleDisabled)
   \<and> fst (processCommand exampleDisabled Map.empty (exampleMessage ''/weather'')) = None
   \<and> startsWith ''/'' (prefix exampleConfig)
   \<and> cmd_name (parseCommand ''/'' (prefix exampleConfig)) = Some []
   \<and> [] \<notin> set (availableCommands exampleConfig)
   \<and> fst (processCommand exampleConfig Map.empty (exampleMessage ''/'')) = None"
  by code_simp

text \<open>
  C9, amended. When commands are enabled, for every message whose body starts with the
  command prefix and whose parsed command name is not empty and not among the available
  commands, \<open>processCommand\<close> returns the unknown-command text naming that command, a
  value and not an exception, and changes no user setting.
\<close>

theorem processCommand_unknown:
  assumes "commandsEnabled cfg"
    and "startsWith (body m) (prefix cfg)"
    and "cmd_name (parseCommand (body m) (prefix cfg)) = Some name"
    and "name \<noteq> []"
    and "name \<notin> set (availableCommands cfg)"
  shows "processCommand cfg settings m = (Some (UnknownCommand name (prefix cfg)), settings)"
proof -
  have "body m \<noteq> []" using assms(3) by (auto simp: parseCommand_def isCommand_def)
  then show ?thesis using assms by (simp add: processCommand_def)
qed

theorem processCommand_unknown_witness:
  "processCommand exampleConfig Map.empty (exampleMessage ''/Weather in Berlin'')
     = (Some (UnknownCommand ''weather'' ''/''), Map.empty)"
proof -
  have a: "commandsEnabled exampleConfig" by (simp add: exampleConfig_def)
  have b: "startsWith (body (exampleMessage ''/Weather in Berlin'')) (prefix exampleConfig)"
    by code_simp
  have c: "cmd_name (parseCommand (body (exampleMessage ''/Weather in Berlin'')) (prefix exampleConfig))
      = Some ''weather''"
    by code_simp
  have d: "''weather'' \<noteq> []" by simp
  have e: "''weather'' \<notin> set (availableCommands exampleConfig)" by (simp add: exampleConfig_def)
  show ?thesis
    using processCommand_unknown [OF a b c d e, of Map.empty] by (simp add: exampleConfig_def)
qed

section \<open>Properties of the response handler\<close>

lemma length_truncateText:
  assumes "3 \<le> maxLength"
  shows "int (length (truncateText maxLength text)) \<le> maxLength"
  using assms by (auto simp: truncateText_def substringTo_def)

lemma getFallbackResponse_member: "getFallbackResponse k \<in> set fallbacks"
proof -
  have "length fallbacks = 5" by (simp add: fallbacks_def)
  then have "k mod length fallbacks < length fallbacks" by simp
  then show ?thesis unfolding getFallbackResponse_def by (rule nth_mem)
qed

lemma stripInlineCode_none: "backtick \<notin> set s \<Longrightarrow> stripInlineCode s = s"
  by (induction s) auto

lemma stripInlineCode_backticks: "count_list (stripInlineCode s) backtick \<le> 1"
proof (induction s rule: stripInlineCode.induct)
  case 1
  then show ?case by simp
next
  case (2 c cs)
  show ?case
  proof (cases "c = backtick")
    case False
    then show ?thesis using 2 by simp
  next
    case True
    show ?thesis
    proof (cases "dropWhile (\<lambda>x. x \<noteq> backtick) cs")
      case Nil
      have eq: "stripInlineCode (c # cs) = c # stripInlineCode cs"
        using True by (simp add: Nil del: dropWhile_eq_Nil_conv)
      have "backtick \<notin> set cs" using Nil by (auto simp: dropWhile_eq_Nil_conv)
      then have "stripInlineCode cs = cs" "count_list cs backtick = 0"
        by (simp_all add: stripInlineCode_none)
      then show ?thesis unfolding eq by simp
    next
      case (Cons x rest)
      then show ?thesis using True 2(2) by simp
    qed
  qed
qed

lemma count_list_filter_le: "count_list (filter P xs) x \<le> count_list xs x"
  by (induction xs) auto

lemma count_list_takeWhile_dropWhile:
  "count_list (takeWhile P xs) x + count_list (dropWhile P xs) x = count_list xs x"
  using count_list_append [of "takeWhile P xs" "dropWhile P xs" x] by simp

lemma count_list_drop_le: "count_list (drop n xs) x \<le> count_list xs x"
  using count_list_append [of "take n xs" "drop n xs" x] by simp

lemma count_list_tl_le: "count_list (tl xs) x \<le> count_list xs x"
  by (cases xs) auto

lemma stripBold_count: "count_list (stripBold s) x \<le> count_list s x"
proof (induction s rule: stripBold.induct)
  case 1
  then show ?case by simp
next
  case (2 c cs)
  let ?inner = "takeWhile (\<lambda>x. x \<noteq> star) (drop 2 (c # cs))"
  let ?after = "dropWhile (\<lambda>x. x \<noteq> star) (drop 2 (c # cs))"
  show ?case
  proof (cases "startsWith (c # cs) [star, star] \<and> ?inner \<noteq> [] \<and> startsWith ?after [star, star]")
    case True
    then have eq: "stripBold (c # cs) = ?inner @ stripBold (drop 2 ?after)"
      by (simp add: Let_def)
    have "count_list (stripBold (drop 2 ?after)) x \<le> count_list (drop 2 ?after) x"
      using 2(1) [OF refl refl] True by simp
    also have "\<dots> \<le> count_list ?after x" by (rule count_list_drop_le)
    finally have "count_list (stripBold (c # cs)) x \<le> count_list ?inner x + count_list ?after x"
      unfolding eq by simp
    also have "\<dots> = count_list (drop 2 (c # cs)) x" by (rule count_list_takeWhile_dropWhile)
    also have "\<dots> \<le> count_list (c # cs) x" by (rule count_list_drop_le)
    finally show ?thesis .
  next
    case False
    then have eq: "stripBold (c # cs) = c # stripBold cs" by (auto simp: Let_def)
    show ?thesis unfolding eq using 2(2) [OF refl refl] False by simp
  qed
qed

lemma stripItalic_count: "count_list (stripItalic s) x \<le> count_list s x"
proof (induction s rule: stripItalic.induct)
  case 1
  then show ?case by simp
next
  case (2 c cs)
  let ?inner = "takeWhile (\<lambda>x. x \<noteq> star) cs"
  let ?after = "dropWhile (\<lambda>x. x \<noteq> star) cs"
  show ?case
  proof (cases "c = star \<and> ?inner \<noteq> [] \<and> ?after \<noteq> []")
    case True
    then have eq: "stripItalic (c # cs) = ?inner @ stripItalic (tl ?after)"
      by (simp add: Let_def)
    have "count_list (stripItalic (tl ?after)) x \<le> count_list (tl ?after) x"
      using 2(1) [OF refl refl] True by simp
    also have "\<dots> \<le> count_list ?after x" by (rule count_list_tl_le)
    finally have "count_list (stripItalic (c # cs)) x \<le> count_list ?inner x + count_list ?after x"
      unfolding eq by simp
    also have "\<dots> = count_list cs x" by (rule count_list_takeWhile_dropWhile)
    also have "\<dots> \<le> count_list (c # cs) x" by simp
    finally show ?thesis .
  next
    case False
    then have eq: "stripItalic (c # cs) = c # stripItalic cs" by (auto simp: Let_def)
    show ?thesis unfolding eq using 2(2) [OF refl refl] False by simp
  qed
qed

lemma count_list_dropWhile_le: "count_list (dropWhile P xs) x \<le> count_list xs x"
  using count_list_takeWhile_dropWhile [of P xs x] by linarith

lemma stripHeaders_count: "count_list (stripHeaders s) x \<le> count_list s x"
proof (induction s rule: stripHeaders.induct)
  case 1
  then show ?case by simp
next
  case (2 c cs)
  let ?hashes = "takeWhile (\<lambda>x. x = hash) (c # cs)"
  let ?after = "dropWhile (\<lambda>x. x = hash) (c # cs)"
  show ?case
  proof (cases "c = hash \<and> length ?hashes \<le> 6 \<and> ?after \<noteq> [] \<and> isWhitespace (hd ?after)")
    case True
    have "stripHeaders (c # cs) =
        (if c = hash \<and> length ?hashes \<le> 6 \<and> ?after \<noteq> [] \<and> isWhitespace (hd ?after)
         then stripHeaders (dropWhile isWhitespace ?after) else c # stripHeaders cs)"
      by (simp only: stripHeaders.simps Let_def)
    also have "\<dots> = stripHeaders (dropWhile isWhitespace ?after)" using True by (rule if_P)
    finally have eq: "stripHeaders (c # cs) = stripHeaders (dropWhile isWhitespace ?after)" .
    have "count_list (stripHeaders (dropWhile isWhitespace ?after)) x
        \<le> count_list (dropWhile isWhitespace ?after) x"
      by (rule 2(1) [OF refl refl True])
    also have "\<dots> \<le> count_list ?after x" by (rule count_list_dropWhile_le)
    also have "\<dots> \<le> count_list (c # cs) x" by (rule count_list_dropWhile_le)
    finally show ?thesis unfolding eq .
  next
    case False
    have "stripHeaders (c # cs) =
        (if c = hash \<and> length ?hashes \<le> 6 \<and> ?after \<noteq> [] \<and> isWhitespace (hd ?after)
         then stripHeaders (dropWhile isWhitespace ?after) else c # stripHeaders cs)"
      by (simp only: stripHeaders.simps Let_def)
    also have "\<dots> = c # stripHeaders cs" using False by (rule if_not_P)
    finally have eq: "stripHeaders (c # cs) = c # stripHeaders cs" .
    show ?thesis unfolding eq using 2(2) [OF refl refl False] by simp
  qed
qed

lemma stripMarkup_backticks: "count_list (stripMarkup s) backtick \<le> 1"
proof -
  have "count_list (stripMarkup s) backtick
      \<le> count_list (stripItalic (stripBold (stripInlineCode (stripCodeBlocks s)))) backtick"
    unfolding stripMarkup_def by (rule stripHeaders_count)
  also have "\<dots> \<le> count_list (stripBold (stripInlineCode (stripCodeBlocks s))) backtick"
    by (rule stripItalic_count)
  also have "\<dots> \<le> count_list (stripInlineCode (stripCodeBlocks s)) backtick"
    by (rule stripBold_count)
  also have "\<dots> \<le> 1" by (rule stripInlineCode_backticks)
  finally show ?thesis .
qed

lemma truncateText_backticks: "count_list (truncateText n s) backtick \<le> count_list s backtick"
proof -
  have "count_list (take k s) backtick \<le> count_list s backtick" for k
    using count_list_append [of "take k s" "drop k s" backtick] by simp
  then show ?thesis by (simp add: truncateText_def substringTo_def backtick_def)
qed

lemma cleanResponse_kept:
  assumes "3 \<le> maxResponseLength cfg"
  shows "cleanResponse cfg response k = fallbacks ! (k mod 5)
       \<or> (3 \<le> length (cleanResponse cfg response k)
          \<and> int (length (cleanResponse cfg response k)) \<le> maxResponseLength cfg
          \<and> count_list (cleanResponse cfg response k) (CHR 0x60) \<le> 1)"
proof -
  let ?cleaned = "truncateText (maxResponseLength cfg) (stripMarkup (trim response))"
  have "count_list ?cleaned backtick \<le> 1"
    using truncateText_backticks stripMarkup_backticks by (rule order_trans)
  moreover have "int (length ?cleaned) \<le> maxResponseLength cfg"
    using assms by (rule length_truncateText)
  moreover have "length fallbacks = 5" by (simp add: fallbacks_def)
  ultimately show ?thesis
    by (auto simp: cleanResponse_def getFallbackResponse_def Let_def backtick_def)
qed

subsection \<open>What each replacement does to a segment\<close>

lemma takeWhile_until: "m \<notin> set t \<Longrightarrow> takeWhile (\<lambda>x. x \<noteq> m) (t @ m # rest) = t"
  by (induction t) auto

lemma dropWhile_until: "m \<notin> set t \<Longrightarrow> dropWhile (\<lambda>x. x \<noteq> m) (t @ m # rest) = m # rest"
  by (induction t) auto

lemma trim_padded:
  assumes "set l \<subseteq> set specSpaces" "set r \<subseteq> set specSpaces"
    and "core = [] \<or> (hd core \<notin> set specSpaces \<and> last core \<notin> set specSpaces)"
  shows "trim (l @ core @ r) = core"
proof (cases "core = []")
  case True
  have "\<forall>x \<in> set (l @ r). isWhitespace x" using assms(1,2) by (auto simp: isWhitespace_spec)
  then have d: "dropWhile isWhitespace (l @ [] @ r) = []"
    by (simp only: dropWhile_eq_Nil_conv append_Nil)
  show ?thesis unfolding trim_def True d by simp
next
  case False
  then have h: "\<not> isWhitespace (hd core)" "\<not> isWhitespace (last core)"
    using assms(3) by (auto simp: isWhitespace_spec)
  have l: "\<forall>x \<in> set l. isWhitespace x" and r: "\<forall>x \<in> set r. isWhitespace x"
    using assms(1,2) by (auto simp: isWhitespace_spec)
  have 1: "dropWhile isWhitespace (l @ core @ r) = core @ r"
    using l False h(1) by (cases core) (auto simp: dropWhile_append)
  have 2: "dropWhile isWhitespace (rev r @ rev core) = rev core"
    using r False h(2) by (cases core rule: rev_cases) (auto simp: dropWhile_append)
  show ?thesis by (simp add: trim_def 1 2)
qed

lemma stripCodeBlocks_plain: "CHR 0x60 \<notin> set p \<Longrightarrow> stripCodeBlocks (p @ s) = p @ stripCodeBlocks s"
  by (induction p) (auto simp: startsWith_def fence_def backtick_def)

lemma stripInlineCode_plain: "CHR 0x60 \<notin> set p \<Longrightarrow> stripInlineCode (p @ s) = p @ stripInlineCode s"
  by (induction p) (auto simp: backtick_def)

lemma stripBold_plain: "CHR ''*'' \<notin> set p \<Longrightarrow> stripBold (p @ s) = p @ stripBold s"
  by (induction p) (auto simp: startsWith_def Let_def star_def)

lemma stripItalic_plain: "CHR ''*'' \<notin> set p \<Longrightarrow> stripItalic (p @ s) = p @ stripItalic s"
  by (induction p) (auto simp: Let_def star_def)

lemma stripHeaders_plain: "CHR ''#'' \<notin> set p \<Longrightarrow> stripHeaders (p @ s) = p @ stripHeaders s"
  by (induction p) (auto simp: Let_def hash_def)

lemma afterFence_found:
  assumes "\<not> jsIncludes t fence" "t = [] \<or> last t \<noteq> backtick"
  shows "afterFence (t @ fence @ rest) = Some rest"
  using assms
proof (induction t)
  case Nil
  then show ?case by (simp add: fence_def startsWith_def)
next
  case (Cons c cs)
  have no: "\<not> startsWith (c # cs) fence" "\<not> jsIncludes cs fence \<or> cs = []"
    using Cons.prems(1) by auto
  have last: "cs = [] \<or> last cs \<noteq> backtick" using Cons.prems(2) by (auto split: if_splits)
  have "\<not> startsWith ((c # cs) @ fence @ rest) fence"
  proof (cases "3 \<le> length (c # cs)")
    case True
    then show ?thesis using no(1) by (simp add: startsWith_def fence_def)
  next
    case False
    then consider "cs = []" | d where "cs = [d]"
      by (cases cs; cases "tl cs") auto
    then show ?thesis
      using Cons.prems(2) by cases (auto simp: startsWith_def fence_def)
  qed
  moreover have "afterFence (cs @ fence @ rest) = Some rest"
  proof (cases "cs = []")
    case True
    then show ?thesis by (simp add: fence_def startsWith_def)
  next
    case False
    then show ?thesis using Cons.IH no(2) last by simp
  qed
  ultimately show ?case by simp
qed

lemma stripCodeBlocks_block:
  assumes "wellFormed (CodeBlock t)"
  shows "stripCodeBlocks (written (CodeBlock t) @ rest) = stripCodeBlocks rest"
proof -
  have wf: "\<not> jsIncludes t fence" "t = [] \<or> last t \<noteq> backtick"
    using assms by (simp_all add: fence_def backtick_def)
  have eq: "written (CodeBlock t) @ rest = backtick # backtick # backtick # (t @ fence @ rest)"
    by (simp add: fence_def backtick_def)
  have "startsWith (backtick # backtick # backtick # (t @ fence @ rest)) fence"
    by (simp add: startsWith_def fence_def)
  then have "stripCodeBlocks (backtick # backtick # backtick # (t @ fence @ rest)) = stripCodeBlocks rest"
    using afterFence_found [OF wf, of rest] by simp
  then show ?thesis by (simp only: eq)
qed

lemma stripCodeBlocks_inline:
  assumes "wellFormed (InlineCode t)" and "rest = [] \<or> hd rest \<noteq> CHR 0x60"
  shows "stripCodeBlocks (written (InlineCode t) @ rest) = written (InlineCode t) @ stripCodeBlocks rest"
proof -
  have t: "CHR 0x60 \<notin> set t" using assms(1) by simp
  have a: "\<not> startsWith (backtick # t @ backtick # rest) fence"
    using t assms(2) by (cases t; cases rest) (auto simp: startsWith_def fence_def backtick_def)
  have b: "\<not> startsWith (backtick # rest) fence"
    using assms(2) by (cases rest) (auto simp: startsWith_def fence_def backtick_def)
  have "stripCodeBlocks (backtick # t @ backtick # rest) = backtick # stripCodeBlocks (t @ backtick # rest)"
    using a by simp
  also have "\<dots> = backtick # t @ stripCodeBlocks (backtick # rest)"
    using t by (simp add: stripCodeBlocks_plain)
  also have "\<dots> = backtick # t @ backtick # stripCodeBlocks rest"
    using b by simp
  finally show ?thesis by (simp add: backtick_def)
qed

lemma stripInlineCode_span:
  assumes "wellFormed (InlineCode t)"
  shows "stripInlineCode (written (InlineCode t) @ rest) = stripInlineCode rest"
proof -
  have "backtick \<notin> set t" using assms by (simp add: backtick_def)
  then have "dropWhile (\<lambda>x. x \<noteq> backtick) (t @ backtick # rest) = backtick # rest"
    by (rule dropWhile_until)
  then have "stripInlineCode (backtick # t @ backtick # rest) = stripInlineCode rest" by simp
  then show ?thesis by (simp add: backtick_def)
qed

lemma stripBold_span:
  assumes "wellFormed (Bold t)"
  shows "stripBold (written (Bold t) @ rest) = t @ stripBold rest"
proof -
  have t: "t \<noteq> []" "star \<notin> set t" using assms by (simp_all add: plainText_def star_def)
  have "takeWhile (\<lambda>x. x \<noteq> star) (t @ star # star # rest) = t"
    using t(2) by (rule takeWhile_until)
  moreover have "dropWhile (\<lambda>x. x \<noteq> star) (t @ star # star # rest) = star # star # rest"
    using t(2) by (rule dropWhile_until)
  ultimately have "stripBold (star # star # t @ star # star # rest) = t @ stripBold rest"
    using t(1) by (simp add: Let_def startsWith_def)
  then show ?thesis by (simp add: star_def)
qed

lemma stripBold_italic:
  assumes "wellFormed (Italic t)" and "rest = [] \<or> hd rest \<noteq> CHR ''*''"
  shows "stripBold (written (Italic t) @ rest) = written (Italic t) @ stripBold rest"
proof -
  have t: "t \<noteq> []" "CHR ''*'' \<notin> set t" using assms(1) by (simp_all add: plainText_def)
  have a: "\<not> startsWith (star # t @ star # rest) [star, star]"
    using t by (cases t) (auto simp: startsWith_def star_def)
  have b: "\<not> startsWith (star # rest) [star, star]"
    using assms(2) by (cases rest) (auto simp: startsWith_def star_def)
  have "stripBold (star # t @ star # rest) = star # stripBold (t @ star # rest)"
    using a by (simp add: Let_def)
  also have "\<dots> = star # t @ stripBold (star # rest)"
    using t(2) by (simp add: stripBold_plain)
  also have "\<dots> = star # t @ star # stripBold rest"
    using b by (simp add: Let_def)
  finally show ?thesis by (simp add: star_def)
qed

lemma stripItalic_span:
  assumes "wellFormed (Italic t)"
  shows "stripItalic (written (Italic t) @ rest) = t @ stripItalic rest"
proof -
  have t: "t \<noteq> []" "star \<notin> set t" using assms by (simp_all add: plainText_def star_def)
  have "takeWhile (\<lambda>x. x \<noteq> star) (t @ star # rest) = t"
    using t(2) by (rule takeWhile_until)
  moreover have "dropWhile (\<lambda>x. x \<noteq> star) (t @ star # rest) = star # rest"
    using t(2) by (rule dropWhile_until)
  ultimately have "stripItalic (star # t @ star # rest) = t @ stripItalic rest"
    using t(1) by (simp add: Let_def)
  then show ?thesis by (simp add: star_def)
qed

lemma stripHeaders_span:
  assumes "wellFormed (Header n ws)" and "rest = [] \<or> hd rest \<notin> set specSpaces"
  shows "stripHeaders (written (Header n ws) @ rest) = stripHeaders rest"
proof -
  have n: "1 \<le> n" "n \<le> 6" and ws: "ws \<noteq> []" "\<forall>c \<in> set ws. isWhitespace c"
    using assms(1) by (auto simp: isWhitespace_spec)
  obtain k where k: "n = Suc k" using n(1) by (cases n) auto
  obtain w ws' where w: "ws = w # ws'" using ws(1) by (cases ws) auto
  have wh: "w \<noteq> hash" "isWhitespace w" using ws(2) w by (auto simp: isWhitespace_def hash_def)
  let ?s = "replicate k hash @ ws @ rest"
  have tw: "takeWhile (\<lambda>x. x = hash) (hash # ?s) = replicate n hash"
    using wh(1) by (simp add: k w takeWhile_append)
  have dw: "dropWhile (\<lambda>x. x = hash) (hash # ?s) = ws @ rest"
    using wh(1) by (simp add: k w dropWhile_append)
  have rest: "dropWhile isWhitespace (ws @ rest) = rest"
    using ws(2) assms(2) by (cases rest) (auto simp: dropWhile_append isWhitespace_spec)
  have c: "hash = hash \<and> length (replicate n hash) \<le> 6 \<and> ws @ rest \<noteq> [] \<and> isWhitespace (hd (ws @ rest))"
    using n(2) wh(2) by (simp add: w)
  have "stripHeaders (hash # ?s) =
      (if hash = hash \<and> length (replicate n hash) \<le> 6 \<and> ws @ rest \<noteq> [] \<and> isWhitespace (hd (ws @ rest))
       then stripHeaders (dropWhile isWhitespace (ws @ rest)) else hash # stripHeaders ?s)"
    by (simp only: stripHeaders.simps Let_def tw dw)
  also have "\<dots> = stripHeaders (dropWhile isWhitespace (ws @ rest))" using c by (rule if_P)
  finally show ?thesis by (simp add: rest k hash_def)
qed

subsection \<open>The replacements on a sequence of segments\<close>

lemma spaces_markers:
  "set ws \<subseteq> set specSpaces \<Longrightarrow> CHR 0x60 \<notin> set ws \<and> CHR ''*'' \<notin> set ws \<and> CHR ''#'' \<notin> set ws"
  by (auto simp: specSpaces_def)

lemma step_codeBlocks:
  assumes "wellFormed a" "clear a rest"
  shows "stripCodeBlocks (piece 0 a @ rest) = piece 1 a @ stripCodeBlocks rest"
proof (cases a)
  case (CodeBlock t)
  then have p: "piece 0 a = written (CodeBlock t)" "piece 1 a = []" by (simp_all add: piece_def)
  show ?thesis unfolding p using assms(1) CodeBlock by (simp only: stripCodeBlocks_block append_Nil)
next
  case (InlineCode t)
  then have p: "piece 0 a = written (InlineCode t)" "piece 1 a = written (InlineCode t)"
    by (simp_all add: piece_def)
  have "rest = [] \<or> hd rest \<noteq> CHR 0x60" using assms(2) InlineCode by (auto simp: clear_def)
  then show ?thesis unfolding p using assms(1) InlineCode by (simp only: stripCodeBlocks_inline)
next
  case (Plain t)
  then have p: "piece 0 a = written a" "piece 1 a = written a" by (simp_all add: piece_def)
  have "CHR 0x60 \<notin> set (written a)" using Plain assms(1) by (simp add: plainText_def)
  then show ?thesis unfolding p by (rule stripCodeBlocks_plain)
next
  case (Bold t)
  then have p: "piece 0 a = written a" "piece 1 a = written a" by (simp_all add: piece_def)
  have "CHR 0x60 \<notin> set (written a)" using Bold assms(1) by (simp add: plainText_def)
  then show ?thesis unfolding p by (rule stripCodeBlocks_plain)
next
  case (Italic t)
  then have p: "piece 0 a = written a" "piece 1 a = written a" by (simp_all add: piece_def)
  have "CHR 0x60 \<notin> set (written a)" using Italic assms(1) by (simp add: plainText_def)
  then show ?thesis unfolding p by (rule stripCodeBlocks_plain)
next
  case (Header n ws)
  then have p: "piece 0 a = written a" "piece 1 a = written a" by (simp_all add: piece_def)
  have "CHR 0x60 \<notin> set (written a)" using Header assms(1) spaces_markers [of ws] by simp
  then show ?thesis unfolding p by (rule stripCodeBlocks_plain)
qed

lemma step_inlineCode:
  assumes "wellFormed a"
  shows "stripInlineCode (piece 1 a @ rest) = piece 2 a @ stripInlineCode rest"
proof (cases a)
  case (CodeBlock t)
  then have p: "piece 1 a = []" "piece 2 a = []" by (simp_all add: piece_def)
  show ?thesis unfolding p by simp
next
  case (InlineCode t)
  then have p: "piece 1 a = written (InlineCode t)" "piece 2 a = []" by (simp_all add: piece_def)
  show ?thesis unfolding p using assms(1) InlineCode by (simp only: stripInlineCode_span append_Nil)
next
  case (Plain t)
  then have p: "piece 1 a = written a" "piece 2 a = written a" by (simp_all add: piece_def)
  have "CHR 0x60 \<notin> set (written a)" using Plain assms(1) by (simp add: plainText_def)
  then show ?thesis unfolding p by (rule stripInlineCode_plain)
next
  case (Bold t)
  then have p: "piece 1 a = written a" "piece 2 a = written a" by (simp_all add: piece_def)
  have "CHR 0x60 \<notin> set (written a)" using Bold assms(1) by (simp add: plainText_def)
  then show ?thesis unfolding p by (rule stripInlineCode_plain)
next
  case (Italic t)
  then have p: "piece 1 a = written a" "piece 2 a = written a" by (simp_all add: piece_def)
  have "CHR 0x60 \<notin> set (written a)" using Italic assms(1) by (simp add: plainText_def)
  then show ?thesis unfolding p by (rule stripInlineCode_plain)
next
  case (Header n ws)
  then have p: "piece 1 a = written a" "piece 2 a = written a" by (simp_all add: piece_def)
  have "CHR 0x60 \<notin> set (written a)" using Header assms(1) spaces_markers [of ws] by simp
  then show ?thesis unfolding p by (rule stripInlineCode_plain)
qed

lemma step_bold:
  assumes "wellFormed a" "clear a rest"
  shows "stripBold (piece 2 a @ rest) = piece 3 a @ stripBold rest"
proof (cases a)
  case (CodeBlock t)
  then have p: "piece 2 a = []" "piece 3 a = []" by (simp_all add: piece_def)
  show ?thesis unfolding p by simp
next
  case (InlineCode t)
  then have p: "piece 2 a = []" "piece 3 a = []" by (simp_all add: piece_def)
  show ?thesis unfolding p by simp
next
  case (Bold t)
  then have p: "piece 2 a = written (Bold t)" "piece 3 a = t" by (simp_all add: piece_def)
  show ?thesis unfolding p using assms(1) Bold by (simp only: stripBold_span)
next
  case (Italic t)
  then have p: "piece 2 a = written (Italic t)" "piece 3 a = written (Italic t)"
    by (simp_all add: piece_def)
  have "rest = [] \<or> hd rest \<noteq> CHR ''*''" using assms(2) Italic by (auto simp: clear_def)
  then show ?thesis unfolding p using assms(1) Italic by (simp only: stripBold_italic)
next
  case (Plain t)
  then have p: "piece 2 a = written a" "piece 3 a = written a" by (simp_all add: piece_def)
  have "CHR ''*'' \<notin> set (written a)" using Plain assms(1) by (simp add: plainText_def)
  then show ?thesis unfolding p by (rule stripBold_plain)
next
  case (Header n ws)
  then have p: "piece 2 a = written a" "piece 3 a = written a" by (simp_all add: piece_def)
  have "CHR ''*'' \<notin> set (written a)" using Header assms(1) spaces_markers [of ws] by simp
  then show ?thesis unfolding p by (rule stripBold_plain)
qed

lemma step_italic:
  assumes "wellFormed a"
  shows "stripItalic (piece 3 a @ rest) = piece 4 a @ stripItalic rest"
proof (cases a)
  case (CodeBlock t)
  then have p: "piece 3 a = []" "piece 4 a = []" by (simp_all add: piece_def)
  show ?thesis unfolding p by simp
next
  case (InlineCode t)
  then have p: "piece 3 a = []" "piece 4 a = []" by (simp_all add: piece_def)
  show ?thesis unfolding p by simp
next
  case (Bold t)
  then have p: "piece 3 a = t" "piece 4 a = t" by (simp_all add: piece_def)
  have "CHR ''*'' \<notin> set t" using Bold assms(1) by (simp add: plainText_def)
  then show ?thesis unfolding p by (rule stripItalic_plain)
next
  case (Italic t)
  then have p: "piece 3 a = written (Italic t)" "piece 4 a = t" by (simp_all add: piece_def)
  show ?thesis unfolding p using assms(1) Italic by (simp only: stripItalic_span)
next
  case (Plain t)
  then have p: "piece 3 a = written a" "piece 4 a = written a" by (simp_all add: piece_def)
  have "CHR ''*'' \<notin> set (written a)" using Plain assms(1) by (simp add: plainText_def)
  then show ?thesis unfolding p by (rule stripItalic_plain)
next
  case (Header n ws)
  then have p: "piece 3 a = written a" "piece 4 a = written a" by (simp_all add: piece_def)
  have "CHR ''*'' \<notin> set (written a)" using Header assms(1) spaces_markers [of ws] by simp
  then show ?thesis unfolding p by (rule stripItalic_plain)
qed

lemma step_headers:
  assumes "wellFormed a" "clear a rest"
  shows "stripHeaders (piece 4 a @ rest) = piece 5 a @ stripHeaders rest"
proof (cases a)
  case (CodeBlock t)
  then have p: "piece 4 a = []" "piece 5 a = []" by (simp_all add: piece_def)
  show ?thesis unfolding p by simp
next
  case (InlineCode t)
  then have p: "piece 4 a = []" "piece 5 a = []" by (simp_all add: piece_def)
  show ?thesis unfolding p by simp
next
  case (Bold t)
  then have p: "piece 4 a = t" "piece 5 a = t" by (simp_all add: piece_def)
  have "CHR ''#'' \<notin> set t" using Bold assms(1) by (simp add: plainText_def)
  then show ?thesis unfolding p by (rule stripHeaders_plain)
next
  case (Italic t)
  then have p: "piece 4 a = t" "piece 5 a = t" by (simp_all add: piece_def)
  have "CHR ''#'' \<notin> set t" using Italic assms(1) by (simp add: plainText_def)
  then show ?thesis unfolding p by (rule stripHeaders_plain)
next
  case (Plain t)
  then have p: "piece 4 a = t" "piece 5 a = t" by (simp_all add: piece_def)
  have "CHR ''#'' \<notin> set t" using Plain assms(1) by (simp add: plainText_def)
  then show ?thesis unfolding p by (rule stripHeaders_plain)
next
  case (Header n ws)
  then have p: "piece 4 a = written (Header n ws)" "piece 5 a = []" by (simp_all add: piece_def)
  have "rest = [] \<or> hd rest \<notin> set specSpaces" using assms(2) Header by (auto simp: clear_def)
  then show ?thesis unfolding p using assms(1) Header by (simp only: stripHeaders_span append_Nil)
qed

lemma partly_Cons: "partly n (a # segs) = piece n a @ partly n segs"
  by (simp add: partly_def)

lemma separated_tail: "separated (a # segs) \<Longrightarrow> separated segs"
  by (cases segs) auto

lemma clear_next:
  assumes "separated (a # segs)" "list_all wellFormed segs"
  shows "clear a (partly n segs)"
proof (cases "kind a = 0 \<or> segs = []")
  case True
  then show ?thesis by (auto simp: clear_def partly_def)
next
  case False
  then obtain b rest where segs: "segs = b # rest" by (cases segs) auto
  from False assms(1) obtain t where b: "b = Plain t" "t \<noteq> []"
      "kind a = 5 \<longrightarrow> hd t \<notin> set specSpaces"
    unfolding segs by (cases a; cases b) auto
  have "plainText t" using assms(2) segs b by simp
  moreover have "hd t \<in> set t" using b(2) by simp
  ultimately have "hd t \<noteq> CHR 0x60 \<and> hd t \<noteq> CHR ''*''" by (auto simp: plainText_def)
  moreover have "partly n segs = t @ partly n rest" by (simp add: segs b partly_Cons piece_def)
  ultimately show ?thesis using b(2,3) by (simp add: clear_def)
qed

lemma stripMarkup_segments:
  assumes "list_all wellFormed segs" "separated segs"
  shows "stripMarkup (concat (map written segs)) = concat (map stripped segs)"
proof -
  have all: "stripCodeBlocks (partly 0 segs) = partly 1 segs
      \<and> stripInlineCode (partly 1 segs) = partly 2 segs
      \<and> stripBold (partly 2 segs) = partly 3 segs
      \<and> stripItalic (partly 3 segs) = partly 4 segs
      \<and> stripHeaders (partly 4 segs) = partly 5 segs"
    using assms
  proof (induction segs)
    case Nil
    then show ?case by (simp add: partly_def)
  next
    case (Cons a segs)
    have wf: "wellFormed a" "list_all wellFormed segs" using Cons.prems(1) by simp_all
    have sep: "separated segs" using Cons.prems(2) by (rule separated_tail)
    note IH = Cons.IH [OF wf(2) sep]
    note cl = clear_next [OF Cons.prems(2) wf(2)]
    show ?case
      unfolding partly_Cons
      by (simp only: step_codeBlocks [OF wf(1) cl] step_inlineCode [OF wf(1)]
          step_bold [OF wf(1) cl] step_italic [OF wf(1)] step_headers [OF wf(1) cl] IH simp_thms)
  qed
  have "piece 0 a = written a" for a by (cases a) (simp_all add: piece_def)
  then have "piece 0 = written" by (intro ext)
  then have "partly 0 segs = concat (map written segs)" by (simp add: partly_def)
  moreover have "piece 5 a = stripped a" for a by (cases a) (simp_all add: piece_def)
  then have "piece 5 = stripped" by (intro ext)
  then have "partly 5 segs = concat (map stripped segs)" by (simp add: partly_def)
  ultimately show ?thesis using all by (simp add: stripMarkup_def)
qed

lemma cleanResponse_segments:
  assumes "3 \<le> maxResponseLength cfg"
    and "list_all wellFormed segs" "separated segs"
    and "set l \<subseteq> set specSpaces" "set r \<subseteq> set specSpaces"
    and "core = concat (map written segs)"
    and "core = [] \<or> (hd core \<notin> set specSpaces \<and> last core \<notin> set specSpaces)"
    and "t = concat (map stripped segs)"
  shows "cleanResponse cfg (l @ core @ r) k =
           (if length t < 3 then fallbacks ! (k mod 5)
            else if int (length t) \<le> maxResponseLength cfg then t
            else take (nat (maxResponseLength cfg - 3)) t @ ''...'')"
proof -
  have tr: "trim (l @ core @ r) = core" using assms(4,5,7) by (rule trim_padded)
  have st: "stripMarkup core = t" unfolding assms(6,8) using assms(2,3) by (rule stripMarkup_segments)
  have five: "length fallbacks = 5" by (simp add: fallbacks_def)
  have empty: "t = []" if "l @ core @ r = []"
  proof -
    from that have "core = []" by simp
    then have "stripMarkup core = []" by (simp add: stripMarkup_def)
    then show ?thesis using st by simp
  qed
  show ?thesis
  proof (cases "l @ core @ r = []")
    case True
    then show ?thesis using empty by (simp add: cleanResponse_def getFallbackResponse_def five)
  next
    case False
    have "cleanResponse cfg (l @ core @ r) k =
        (let cleaned = truncateText (maxResponseLength cfg) (stripMarkup (trim (l @ core @ r)))
         in if cleaned = [] \<or> length cleaned < 3 then getFallbackResponse k else cleaned)"
      unfolding cleanResponse_def using False by (rule if_not_P)
    then show ?thesis
      unfolding tr st
      using assms(1)
      by (auto simp: Let_def truncateText_def substringTo_def getFallbackResponse_def five)
  qed
qed

text \<open>
  The Gemini client answers a failure of the model itself with one of its fallback
  texts, which then passes through \<open>cleanResponse\<close> like any other text: it comes out
  unchanged when \<open>maxResponseLength\<close> is at least 103, the length of the longest of
  them, and truncated otherwise.
\<close>

lemma fallbacks_clean:
  assumes "t \<in> set fallbacks"
  shows "stripMarkup (trim t) = t \<and> 3 \<le> length t \<and> length t \<le> 103"
proof -
  have "list_all (\<lambda>t. stripMarkup (trim t) = t \<and> 3 \<le> length t \<and> length t \<le> 103) fallbacks"
    by code_simp
  then show ?thesis using assms by (simp add: list_all_iff)
qed

lemma model_failure_text:
  assumes "103 \<le> maxResponseLength cfg"
  shows "\<exists>t \<in> set fallbacks. geminiGenerateResponse cfg (Inl (ErrorValue e)) k = Inr t
           \<and> generateResponse cfg (Inr t) j = t"
proof -
  let ?t = "geminiFallbacks ! (k mod length geminiFallbacks)"
  have len: "length geminiFallbacks = 4" by (simp add: geminiFallbacks_def fallbacks_def)
  then have "?t \<in> set geminiFallbacks" by (intro nth_mem) simp
  then have mem: "?t \<in> set fallbacks" unfolding geminiFallbacks_def by (rule in_set_takeD)
  note c = fallbacks_clean [OF mem]
  have "truncateText (maxResponseLength cfg) ?t = ?t"
    using c assms by (simp add: truncateText_def)
  then have "generateResponse cfg (Inr ?t) j = ?t"
    using c by (auto simp: generateResponse_def cleanResponse_def Let_def)
  then show ?thesis using mem by (auto simp: geminiGenerateResponse_def)
qed

lemma model_failure_truncated:
  "generateResponse exampleShort
     (geminiGenerateResponse exampleShort (Inl (ErrorValue ''503 Service Unavailable'')) 1) 0
   = ''I apologize, but I'm experiencing some technical difficulties. Could you please rephrase your que...''"
  by code_simp

section \<open>Properties of the message handler\<close>

lemma processCommand_plain:
  "routedCommand cfg m = None \<Longrightarrow> processCommand cfg settings m = (None, settings)"
  by (auto simp: routedCommand_def processCommand_def split: option.splits if_splits)















lemma sendResponse_fields [simp]:
  "memory (sendResponse cfg st c r) = memory st"
  "userSettings (sendResponse cfg st c r) = userSettings st"
  "cooldownMap (sendResponse cfg st c r) = cooldownMap st"
  "generationCalls (sendResponse cfg st c r) = generationCalls st"
  "sent (sendResponse cfg st c r) = (if sendMessageCallback cfg then sent st @ [(c, r)] else sent st)"
  by (simp_all add: sendResponse_def)

lemma fallbacks_nonempty: "t \<in> set fallbacks \<Longrightarrow> t \<noteq> []"
  by (auto simp: fallbacks_def)

lemma getFallbackResponse_nonempty: "getFallbackResponse k \<noteq> []"
  using getFallbackResponse_member [of k] fallbacks_nonempty by blast

lemma generateResponse_nonempty: "generateResponse cfg g k \<noteq> []"
  using getFallbackResponse_nonempty [of k]
  by (auto simp: generateResponse_def cleanResponse_def Let_def split: sum.splits)

lemma generateAIResponse_result:
  "generateAIResponse cfg env st m cid =
     (Some (generateResponse cfg (generated env) (draw env)),
      st\<lparr> memory := addMessage (memory st) cid
                        (botMessage (generateResponse cfg (generated env) (draw env)) (now_reply env))
                        (now_reply env),
          generationCalls := generationCalls st
            @ [\<lparr> req_message = body m,
                 req_context = fst (getConversationContext (memory st) cid None),
                 req_contactName = (case contactName env of None \<Rightarrow> ''User'' | Some n \<Rightarrow> n) \<rparr>] \<rparr>)"
proof -
  have same: "snd (getConversationContext (memory st) cid None) = memory st"
    by (simp add: getConversationContext_def Let_def split: option.splits)
  show ?thesis
    using generateResponse_nonempty [of cfg "generated env" "draw env"] same
    by (simp add: generateAIResponse_def Let_def split_beta)
qed




lemma handleMessage_refused:
  assumes "passesFilters cfg st m (now_filter env)"
    and "routedCommand cfg m = None"
    and "isUserResponsesEnabled cfg (userSettings st) (sender m) = (True, settings2)"
    and "checkResponseFrequency cfg (cooldownMap st) (sender m) (now_frequency env) = (allowed, cooldowns)"
    and "allowed \<noteq> Inr True"
  shows "handleMessage cfg env st m =
     st\<lparr> memory := addMessage (memory st) (generateConversationId (sender m)) m (now_append env),
         userSettings := settings2, cooldownMap := cooldowns \<rparr>"
  using assms by (simp add: handleMessage_def Let_def processCommand_plain)

lemma handleMessage_generated:
  assumes "passesFilters cfg st m (now_filter env)"
    and "routedCommand cfg m = None"
    and "isUserResponsesEnabled cfg (userSettings st) (sender m) = (True, settings2)"
    and "checkResponseFrequency cfg (cooldownMap st) (sender m) (now_frequency env) = (Inr True, cooldowns)"
    and "cid = generateConversationId (sender m)"
    and "response = generateResponse cfg (generated env) (draw env)"
    and "mem1 = addMessage (memory st) cid m (now_append env)"
  shows "handleMessage cfg env st m =
     st\<lparr> memory := addMessage mem1 cid (botMessage response (now_reply env)) (now_reply env),
         userSettings := settings2,
         generationCalls := generationCalls st
            @ [\<lparr> req_message = body m,
                 req_context = fst (getConversationContext mem1 cid None),
                 req_contactName = (case contactName env of None \<Rightarrow> ''User'' | Some n \<Rightarrow> n) \<rparr>],
         sent := (if sendMessageCallback cfg then sent st @ [(sender m, ResponseText response)]
                  else sent st),
         cooldownMap := updateCooldown cooldowns (getCooldownKey (sender m)) (now_sent env) \<rparr>"
  using assms generateResponse_nonempty [of cfg "generated env" "draw env"]
  by (simp add: handleMessage_def Let_def processCommand_plain generateAIResponse_result sendResponse_def)


















subsection \<open>The text that is sent\<close>

lemma handleMessage_sends_cleaned:
  assumes "passesFilters cfg st m (now_filter env)" and "routedCommand cfg m = None"
    and "fst (isUserResponsesEnabled cfg (userSettings st) (sender m))"
    and "fst (checkResponseFrequency cfg (cooldownMap st) (sender m) (now_frequency env)) = Inr True"
    and "sendMessageCallback cfg" and "generated env = Inr answer"
  shows "sent (handleMessage cfg env st m)
           = sent st @ [(sender m, ResponseText (cleanResponse cfg answer (draw env)))]"
proof -
  obtain settings2 where en:
      "isUserResponsesEnabled cfg (userSettings st) (sender m) = (True, settings2)"
    using assms(3) by (cases "isUserResponsesEnabled cfg (userSettings st) (sender m)") auto
  obtain cooldowns where fr:
      "checkResponseFrequency cfg (cooldownMap st) (sender m) (now_frequency env) = (Inr True, cooldowns)"
    using assms(4) by (cases "checkResponseFrequency cfg (cooldownMap st) (sender m) (now_frequency env)") auto
  have "generateResponse cfg (generated env) (draw env) = cleanResponse cfg answer (draw env)"
    by (simp add: generateResponse_def assms(6))
  then show ?thesis
    using assms(5) by (simp add: handleMessage_generated [OF assms(1,2) en fr refl refl refl])
qed

text \<open>
  C6, as stated, bounds every text handed to send by \<open>maxResponseLength\<close>. With a
  maximum of 100 and the raw result \<open>ok\<close>, too short to be kept, the second fallback
  text is sent as it is, 103 characters long.
\<close>

theorem fallback_length_counterexample:
  "sent (handleMessage exampleShort (exampleTerse 1700000000000) exampleInitial (exampleMessage ''hello''))
     = [(''4915112345@c.us'', ResponseText (cleanResponse exampleShort ''ok'' 1))]
   \<and> \<not> int (length (cleanResponse exampleShort ''ok'' 1)) \<le> maxResponseLength exampleShort"
  by code_simp

text \<open>
  C6, amended. The maximum response length is at least three. A response written as
  plain text and well-formed markup (code blocks, inline code, bold, italics, headers),
  every markup followed by plain text or at the end, with white space around the whole,
  is cleaned to the text \<open>t\<close> without the white space around it and without the markup:
  code blocks, inline code and header marks are removed, of bold and italics the inner
  text is kept. When \<open>t\<close> is longer than the maximum, the result is its first
  \<open>maxResponseLength - 3\<close> characters followed by \<open>...\<close>; when \<open>t\<close> has fewer than three
  characters, the result is one of the five fallback texts, as it is and whatever its
  length; otherwise it is \<open>t\<close>. For every response whatever, the result is that
  fallback text, or it has at least three and at most \<open>maxResponseLength\<close> characters and
  at most one backtick (no code block and no inline code is left). The Gemini client,
  before that, cuts the text of the model to the maximum in the same way. When the
  generation capability answers a message with a text, what \<open>handleMessage\<close> hands to
  send is the cleaned text: a fallback text, or a text of at most \<open>maxResponseLength\<close>
  characters.
\<close>

theorem cleanResponse_cleaned:
  assumes "3 \<le> maxResponseLength cfg"
  shows "(list_all wellFormed segs \<and> separated segs
          \<and> set l \<subseteq> set specSpaces \<and> set r \<subseteq> set specSpaces
          \<and> core = concat (map written segs)
          \<and> (core = [] \<or> (hd core \<notin> set specSpaces \<and> last core \<notin> set specSpaces))
          \<and> t = concat (map stripped segs)
          \<longrightarrow> cleanResponse cfg (l @ core @ r) k =
                (if length t < 3 then fallbacks ! (k mod 5)
                 else if int (length t) \<le> maxResponseLength cfg then t
                 else take (nat (maxResponseLength cfg - 3)) t @ ''...''))
       \<and> (cleanResponse cfg response k = fallbacks ! (k mod 5)
          \<or> (3 \<le> length (cleanResponse cfg response k)
             \<and> int (length (cleanResponse cfg response k)) \<le> maxResponseLength cfg
             \<and> count_list (cleanResponse cfg response k) (CHR 0x60) \<le> 1))
       \<and> geminiGenerateResponse cfg (Inr raw) j =
           Inr (if int (length raw) \<le> maxResponseLength cfg then raw
                else take (nat (maxResponseLength cfg - 3)) raw @ ''...'')
       \<and> (passesFilters cfg st m (now_filter env) \<and> routedCommand cfg m = None
          \<and> fst (isUserResponsesEnabled cfg (userSettings st) (sender m))
          \<and> fst (checkResponseFrequency cfg (cooldownMap st) (sender m) (now_frequency env)) = Inr True
          \<and> sendMessageCallback cfg \<and> generated env = Inr answer
          \<longrightarrow> sent (handleMessage cfg env st m)
                = sent st @ [(sender m, ResponseText (cleanResponse cfg answer (draw env)))]
              \<and> (cleanResponse cfg answer (draw env) \<in> set fallbacks
                 \<or> int (length (cleanResponse cfg answer (draw env))) \<le> maxResponseLength cfg))"
proof -
  have segments: "cleanResponse cfg (l @ core @ r) k =
        (if length t < 3 then fallbacks ! (k mod 5)
         else if int (length t) \<le> maxResponseLength cfg then t
         else take (nat (maxResponseLength cfg - 3)) t @ ''...'')"
    if "list_all wellFormed segs" "separated segs"
      "set l \<subseteq> set specSpaces" "set r \<subseteq> set specSpaces"
      "core = concat (map written segs)"
      "core = [] \<or> (hd core \<notin> set specSpaces \<and> last core \<notin> set specSpaces)"
      "t = concat (map stripped segs)"
    using assms that by (rule cleanResponse_segments)
  have gemini: "geminiGenerateResponse cfg (Inr raw) j =
           Inr (if int (length raw) \<le> maxResponseLength cfg then raw
                else take (nat (maxResponseLength cfg - 3)) raw @ ''...'')"
    by (simp add: geminiGenerateResponse_def truncateText_def substringTo_def)
  have five: "fallbacks ! (i mod 5) \<in> set fallbacks" for i
    using getFallbackResponse_member [of i] by (simp add: getFallbackResponse_def fallbacks_def)
  have bound: "cleanResponse cfg answer (draw env) \<in> set fallbacks
      \<or> int (length (cleanResponse cfg answer (draw env))) \<le> maxResponseLength cfg"
    using cleanResponse_kept [OF assms, of answer "draw env"] five [of "draw env"] by auto
  show ?thesis
    using segments cleanResponse_kept [OF assms, of response k] gemini
      handleMessage_sends_cleaned [of cfg st m env answer] bound
    by blast
qed

theorem cleanResponse_cleaned_witness:
  "cleanResponse exampleConfig
      ('' '' @ (''See '' @ [CHR 0x60, CHR 0x60, CHR 0x60] @ ''x = '' @ [CHR 0x60] @ ''1''
         @ [CHR 0x60, CHR 0x60, CHR 0x60] @ '' and '' @ [CHR 0x60] @ ''ls'' @ [CHR 0x60]
         @ '', a **big** or *small* one: ## Title'') @ ''  '') 0
     = ''See  and , a big or small one: Title''
   \<and> cleanResponse exampleBrief
      ('' '' @ (''See '' @ [CHR 0x60, CHR 0x60, CHR 0x60] @ ''x = '' @ [CHR 0x60] @ ''1''
         @ [CHR 0x60, CHR 0x60, CHR 0x60] @ '' and '' @ [CHR 0x60] @ ''ls'' @ [CHR 0x60]
         @ '', a **big** or *small* one: ## Title'') @ ''  '') 0
     = ''See  and , a ...''
   \<and> cleanResponse exampleConfig ([] @ ([CHR 0x60] @ ''ls'' @ [CHR 0x60] @ ''ok'') @ '' '') 2
     = ''I'm having trouble understanding that right now. Could you try asking in a different way?''
   \<and> sent (handleMessage exampleConfig (exampleMarked 1700000000000) exampleInitial
        (exampleMessage ''hello''))
     = [(''4915112345@c.us'', ResponseText ''Hi Alice!'')]"
proof -
  let ?core = "''See '' @ [CHR 0x60, CHR 0x60, CHR 0x60] @ ''x = '' @ [CHR 0x60] @ ''1''
         @ [CHR 0x60, CHR 0x60, CHR 0x60] @ '' and '' @ [CHR 0x60] @ ''ls'' @ [CHR 0x60]
         @ '', a **big** or *small* one: ## Title''"
  let ?t = "''See  and , a big or small one: Title''"
  have big: "3 \<le> maxResponseLength exampleConfig" by (simp add: exampleConfig_def)
  have brief: "3 \<le> maxResponseLength exampleBrief" by (simp add: exampleBrief_def)
  have wf: "list_all wellFormed exampleSegments" by code_simp
  have sep: "separated exampleSegments" by code_simp
  have l: "set '' '' \<subseteq> set specSpaces" by code_simp
  have r: "set ''  '' \<subseteq> set specSpaces" by code_simp
  have core: "?core = concat (map written exampleSegments)" by code_simp
  have trimmed: "?core = [] \<or> (hd ?core \<notin> set specSpaces \<and> last ?core \<notin> set specSpaces)"
    by code_simp
  have t: "?t = concat (map stripped exampleSegments)" by code_simp
  have all: "list_all wellFormed exampleSegments \<and> separated exampleSegments
          \<and> set '' '' \<subseteq> set specSpaces \<and> set ''  '' \<subseteq> set specSpaces
          \<and> ?core = concat (map written exampleSegments)
          \<and> (?core = [] \<or> (hd ?core \<notin> set specSpaces \<and> last ?core \<notin> set specSpaces))
          \<and> ?t = concat (map stripped exampleSegments)"
    using wf sep l r core trimmed t by blast
  have one: "cleanResponse exampleConfig ('' '' @ ?core @ ''  '') 0 = ?t"
    using cleanResponse_cleaned [OF big, of exampleSegments "'' ''" "''  ''" ?core ?t 0,
        THEN conjunct1, THEN mp, OF all]
    by (simp add: exampleConfig_def)
  have two: "cleanResponse exampleBrief ('' '' @ ?core @ ''  '') 0 = ''See  and , a ...''"
    using cleanResponse_cleaned [OF brief, of exampleSegments "'' ''" "''  ''" ?core ?t 0,
        THEN conjunct1, THEN mp, OF all]
    by (simp add: exampleBrief_def exampleConfig_def)
  let ?short = "[CHR 0x60] @ ''ls'' @ [CHR 0x60] @ ''ok''"
  have short: "list_all wellFormed [InlineCode ''ls'', Plain ''ok''] \<and> separated [InlineCode ''ls'', Plain ''ok'']
          \<and> set [] \<subseteq> set specSpaces \<and> set '' '' \<subseteq> set specSpaces
          \<and> ?short = concat (map written [InlineCode ''ls'', Plain ''ok''])
          \<and> (?short = [] \<or> (hd ?short \<notin> set specSpaces \<and> last ?short \<notin> set specSpaces))
          \<and> ''ok'' = concat (map stripped [InlineCode ''ls'', Plain ''ok''])"
    by code_simp
  have three: "cleanResponse exampleConfig ([] @ ?short @ '' '') 2
      = ''I'm having trouble understanding that right now. Could you try asking in a different way?''"
    using cleanResponse_cleaned [OF big, of "[InlineCode ''ls'', Plain ''ok'']" "[]" "'' ''" ?short "''ok''" 2,
        THEN conjunct1, THEN mp, OF short]
    by (simp add: fallbacks_def)
  have h: "passesFilters exampleConfig exampleInitial (exampleMessage ''hello'')
          (now_filter (exampleMarked 1700000000000))
      \<and> routedCommand exampleConfig (exampleMessage ''hello'') = None
      \<and> fst (isUserResponsesEnabled exampleConfig (userSettings exampleInitial)
            (sender (exampleMessage ''hello'')))
      \<and> fst (checkResponseFrequency exampleConfig (cooldownMap exampleInitial)
            (sender (exampleMessage ''hello'')) (now_frequency (exampleMarked 1700000000000))) = Inr True
      \<and> sendMessageCallback exampleConfig
      \<and> generated (exampleMarked 1700000000000) = Inr '' **Hi** Alice! ''"
    by code_simp
  have out: "cleanResponse exampleConfig '' **Hi** Alice! '' (draw (exampleMarked 1700000000000))
      = ''Hi Alice!''"
    by code_simp
  have c: "sender (exampleMessage ''hello'') = ''4915112345@c.us''" by (simp add: exampleMessage_def)
  have s0: "sent exampleInitial = []" by (simp add: exampleInitial_def)
  have four: "sent (handleMessage exampleConfig (exampleMarked 1700000000000) exampleInitial
        (exampleMessage ''hello'')) = [(''4915112345@c.us'', ResponseText ''Hi Alice!'')]"
    using cleanResponse_cleaned [OF big, of _ _ _ _ _ _ _ _ _ exampleInitial "exampleMessage ''hello''"
        "exampleMarked 1700000000000" "'' **Hi** Alice! ''",
        THEN conjunct2, THEN conjunct2, THEN conjunct2, THEN mp, OF h, THEN conjunct1]
    unfolding out c s0 by simp
  from one two three four show ?thesis by blast
qed

end
